theory Spec2Isabelle
  imports Main "HOL-Library.Word"
begin

unbundle bit_operations_syntax

section \<open>The ADC driver (adc.c) as a state machine\<close>

text \<open>
  The driver keeps three file-scope variables (\<open>adc_sample_buffer\<close>,
  \<open>sample_buffer_current_index\<close>, \<open>sample_buffer_full\<close>) and touches a handful of
  peripheral registers of the PIC32: the Timer3 enable bit \<open>T3CONbits.ON\<close>, the ADC
  buffer-fill status bit \<open>AD1CON2bits.BUFS\<close>, the ADC interrupt flag \<open>IFS1bits.AD1IF\<close>
  and the sixteen result registers \<open>ADC1BUF0\<close> .. \<open>ADC1BUFF\<close>. All of them are fields of
  one record; every function of the driver takes the record and returns it updated.

  \<open>SAMPLE_BUFFER_SIZE\<close> is a macro of adc.h, which is not part of the sources at hand.
  It is the parameter \<open>N\<close> of every function that uses it. The C comparison
  \<open>sample_buffer_current_index >= SAMPLE_BUFFER_SIZE\<close> is the comparison of the unsigned
  value of the index with \<open>N\<close>. The array of \<open>N\<close> 16-bit entries lives in the 32-bit
  address space of the PIC32, so \<open>N < 2 ^ 32\<close>; statements that need the index not to
  wrap around assume it.

  Accesses to peripheral registers and stores into the sample buffer are observable
  (every object involved is \<open>volatile\<close>). The field \<open>trace\<close> records them in program
  order; it is not a variable of the C program.
\<close>

datatype event =
    RdBUFS                    \<comment> \<open>read of \<open>AD1CON2bits.BUFS\<close>\<close>
  | RdADC1BUF nat             \<comment> \<open>read of result register \<open>ADC1BUFx\<close>, \<open>x\<close> in 0..15\<close>
  | WrSample nat "16 word"    \<comment> \<open>\<open>adc_sample_buffer[i] = v\<close>\<close>
  | WrT3ON bool               \<comment> \<open>\<open>T3CONbits.ON = b\<close>\<close>
  | WrAD1IF bool              \<comment> \<open>\<open>IFS1bits.AD1IF = b\<close>\<close>

record adc_state =
  adc_sample_buffer :: "16 word list"           \<comment> \<open>\<open>volatile uint16_t [SAMPLE_BUFFER_SIZE]\<close>\<close>
  sample_buffer_current_index :: "32 word"      \<comment> \<open>\<open>static volatile uint32_t\<close>\<close>
  sample_buffer_full :: int                     \<comment> \<open>\<open>volatile int\<close>, only ever assigned 0 or 1\<close>
  T3CON_ON :: bool                              \<comment> \<open>Timer3 running: the trigger is armed\<close>
  AD1CON2_BUFS :: bool                          \<comment> \<open>False: bit is 0, True: bit is 1\<close>
  IFS1_AD1IF :: bool                            \<comment> \<open>ADC interrupt flag\<close>
  ADC1BUF :: "nat \<Rightarrow> 32 word"             \<comment> \<open>\<open>ADC1BUF s x\<close> is register \<open>ADC1BUFx\<close>\<close>
  interrupts_enabled :: bool                    \<comment> \<open>global interrupt enable of the CPU\<close>
  trace :: "event list"

subsection \<open>initADC\<close>

text \<open>
  Of the registers that \<open>initADC\<close> writes, the record has \<open>IFS1bits.AD1IF\<close> (cleared)
  and \<open>T3CONbits.ON\<close> (the timer is turned off). The other writes configure channel,
  clock, batching and priority in registers that no other function of the driver reads.
\<close>

definition initADC :: "adc_state \<Rightarrow> adc_state" where
  "initADC s =
     (let s1 = s\<lparr>IFS1_AD1IF := False, trace := trace s @ [WrAD1IF False]\<rparr>
      in s1\<lparr>T3CON_ON := False, trace := trace s1 @ [WrT3ON False]\<rparr>)"

subsection \<open>insertSample\<close>

definition insertSample :: "nat \<Rightarrow> 32 word \<Rightarrow> adc_state \<Rightarrow> adc_state" where
  "insertSample N sample0 s =
     (let sample = sample0 AND 0x3ff in
      if N \<le> unat (sample_buffer_current_index s)
      then s\<lparr>T3CON_ON := False,
              sample_buffer_full := 1,
              trace := trace s @ [WrT3ON False]\<rparr>
      else s\<lparr>adc_sample_buffer :=
                (adc_sample_buffer s)[unat (sample_buffer_current_index s) := ucast sample],
              sample_buffer_current_index := sample_buffer_current_index s + 1,
              trace := trace s @
                [WrSample (unat (sample_buffer_current_index s)) (ucast sample)]\<rparr>)"

subsection \<open>The interrupt handler\<close>

text \<open>
  \<open>insertSample(ADC1BUFx)\<close> reads the result register and passes the value on.
\<close>

definition drain :: "nat \<Rightarrow> nat \<Rightarrow> adc_state \<Rightarrow> adc_state" where
  "drain N x s = insertSample N (ADC1BUF s x) (s\<lparr>trace := trace s @ [RdADC1BUF x]\<rparr>)"

text \<open>
  The handler is unrolled in the source: eight calls for registers 8 .. F when \<open>BUFS\<close>
  is 0, eight calls for registers 0 .. 7 otherwise, then the interrupt flag is cleared.
  \<open>fold f [a, b, c] s\<close> is \<open>f c (f b (f a s))\<close>: the calls run from left to right.
\<close>

definition ADCHandler :: "nat \<Rightarrow> adc_state \<Rightarrow> adc_state" where
  "ADCHandler N s =
     (let s0 = s\<lparr>trace := trace s @ [RdBUFS]\<rparr>;
          s1 = (if \<not> AD1CON2_BUFS s0
                then fold (drain N) [8, 9, 10, 11, 12, 13, 14, 15] s0
                else fold (drain N) [0, 1, 2, 3, 4, 5, 6, 7] s0)
      in s1\<lparr>IFS1_AD1IF := False, trace := trace s1 @ [WrAD1IF False]\<rparr>)"

subsection \<open>beginFillingADCBuffer\<close>

text \<open>
  Modelled from the spec: \<open>disableInterrupts\<close> and \<open>restoreInterrupts\<close> are functions of
  pic32_system.c, which is not part of the sources at hand. The specification describes
  the pair as a scoped suppression of interrupts (disable, then restore what was there);
  main.c calls \<open>restoreInterrupts(1)\<close> to enable interrupts.
\<close>

definition disableInterrupts :: "adc_state \<Rightarrow> 32 word \<times> adc_state" where
  "disableInterrupts s =
     ((if interrupts_enabled s then 1 else 0), s\<lparr>interrupts_enabled := False\<rparr>)"

definition restoreInterrupts :: "32 word \<Rightarrow> adc_state \<Rightarrow> adc_state" where
  "restoreInterrupts status s = s\<lparr>interrupts_enabled := (status \<noteq> 0)\<rparr>"

definition beginFillingADCBuffer :: "adc_state \<Rightarrow> adc_state" where
  "beginFillingADCBuffer s =
     (case disableInterrupts s of (status, s1) \<Rightarrow>
        let s2 = s1\<lparr>sample_buffer_current_index := 0\<rparr>;
            s3 = s2\<lparr>sample_buffer_full := 0\<rparr>;
            s4 = s3\<lparr>T3CON_ON := True, trace := trace s3 @ [WrT3ON True]\<rparr>
        in restoreInterrupts status s4)"

section \<open>The environment: foreground calls and interrupts\<close>

text \<open>
  Foreground code calls \<open>beginFillingADCBuffer\<close>; the ADC raises its interrupt when a
  bank of eight results is complete, and the handler runs. The reset inside
  \<open>beginFillingADCBuffer\<close> runs with interrupts disabled and the handler is not
  re-entered, so an execution of the driver is a sequence of these two steps, each
  run to its end. Before an interrupt the peripheral has set \<open>BUFS\<close>, filled its result
  registers and raised \<open>AD1IF\<close>; an \<open>Irq\<close> step carries the value of \<open>BUFS\<close> and the
  contents of the sixteen result registers, both arbitrary.
\<close>

datatype step = Start | Irq bool "nat \<Rightarrow> 32 word"

fun exec :: "nat \<Rightarrow> step \<Rightarrow> adc_state \<Rightarrow> adc_state" where
  "exec N Start s = beginFillingADCBuffer s"
| "exec N (Irq bufs regs) s =
     ADCHandler N (s\<lparr>AD1CON2_BUFS := bufs, IFS1_AD1IF := True, ADC1BUF := regs\<rparr>)"

definition run :: "nat \<Rightarrow> step list \<Rightarrow> adc_state \<Rightarrow> adc_state" where
  "run N steps s = fold (exec N) steps s"

text \<open>
  At program start the three variables of the driver are zero (static storage), the
  peripheral registers hold whatever \<open>hw\<close> holds, and main calls \<open>initADC\<close>.
\<close>

definition startup :: "nat \<Rightarrow> adc_state \<Rightarrow> adc_state" where
  "startup N hw =
     initADC (hw\<lparr>adc_sample_buffer := replicate N 0,
                 sample_buffer_current_index := 0,
                 sample_buffer_full := 0,
                 trace := []\<rparr>)"

subsection \<open>Reading the trace\<close>

fun reads_of :: "event list \<Rightarrow> nat list" where
  "reads_of [] = []"
| "reads_of (RdADC1BUF x # es) = x # reads_of es"
| "reads_of (e # es) = reads_of es"

fun stores_of :: "event list \<Rightarrow> (nat \<times> 16 word) list" where
  "stores_of [] = []"
| "stores_of (WrSample i v # es) = (i, v) # stores_of es"
| "stores_of (e # es) = stores_of es"

fun flag_writes_of :: "event list \<Rightarrow> bool list" where
  "flag_writes_of [] = []"
| "flag_writes_of (WrAD1IF b # es) = b # flag_writes_of es"
| "flag_writes_of (e # es) = flag_writes_of es"

text \<open>The state without its trace: the variables and registers only.\<close>

definition untraced :: "adc_state \<Rightarrow> adc_state" where
  "untraced s = s\<lparr>trace := []\<rparr>"

text \<open>What \<open>insertSample\<close> puts into the buffer for the argument \<open>v\<close>.\<close>

definition stored :: "32 word \<Rightarrow> 16 word" where
  "stored v = ucast (v AND 0x3ff)"

subsection \<open>What an interrupt delivers\<close>

text \<open>
  The registers the handler reads for a value of \<open>BUFS\<close>, in the order it reads them,
  and the eight values an \<open>Irq\<close> step hands to \<open>insertSample\<close>.
\<close>

definition completed_bank :: "bool \<Rightarrow> nat list" where
  "completed_bank bufs =
     (if bufs then [0, 1, 2, 3, 4, 5, 6, 7] else [8, 9, 10, 11, 12, 13, 14, 15])"

fun delivered :: "step \<Rightarrow> 32 word list" where
  "delivered Start = []"
| "delivered (Irq bufs regs) = map regs (completed_bank bufs)"

fun is_Irq :: "step \<Rightarrow> bool" where
  "is_Irq Start = False"
| "is_Irq (Irq bufs regs) = True"

text \<open>
  Two states with the same buffer, write index, full flag and timer bit, and the same
  stores so far.
\<close>

definition same_core :: "adc_state \<Rightarrow> adc_state \<Rightarrow> bool" where
  "same_core a b \<longleftrightarrow>
     adc_sample_buffer a = adc_sample_buffer b
     \<and> sample_buffer_current_index a = sample_buffer_current_index b
     \<and> sample_buffer_full a = sample_buffer_full b
     \<and> T3CON_ON a = T3CON_ON b
     \<and> stores_of (trace a) = stores_of (trace b)"

text \<open>Predicates on a store \<open>(i, v)\<close> and on a buffer entry.\<close>

fun in_range :: "nat \<Rightarrow> nat \<times> 16 word \<Rightarrow> bool" where
  "in_range N (i, v) = (i < N)"

fun ten_bit :: "16 word \<Rightarrow> bool" where
  "ten_bit v = (unat v \<le> 1023)"

definition driver_inv :: "nat \<Rightarrow> adc_state \<Rightarrow> bool" where
  "driver_inv N s \<longleftrightarrow>
     length (adc_sample_buffer s) = N
     \<and> unat (sample_buffer_current_index s) \<le> N
     \<and> list_all ten_bit (adc_sample_buffer s)
     \<and> list_all (in_range N) (stores_of (trace s))
     \<and> list_all ten_bit (map snd (stores_of (trace s)))"

subsection \<open>Concrete inputs\<close>

definition quiet_hw :: adc_state where
  "quiet_hw =
     \<lparr>adc_sample_buffer = [], sample_buffer_current_index = 0, sample_buffer_full = 0,
      T3CON_ON = False, AD1CON2_BUFS = False, IFS1_AD1IF = False, ADC1BUF = (\<lambda>x. 0),
      interrupts_enabled = True, trace = []\<rparr>"

text \<open>The same registers with a zeroed sample buffer of \<open>n\<close> entries.\<close>

definition hw_with_buffer :: "nat \<Rightarrow> adc_state" where
  "hw_with_buffer n = quiet_hw\<lparr>adc_sample_buffer := replicate n 0\<rparr>"

text \<open>Every bank holds the values 0 .. 7 in slot order.\<close>

definition synthetic_regs :: "nat \<Rightarrow> 32 word" where
  "synthetic_regs x = of_nat (x mod 8)"

text \<open>Register \<open>x\<close> holds \<open>0x1000 + x\<close>: bits above the tenth are set.\<close>

definition wide_regs :: "nat \<Rightarrow> 32 word" where
  "wide_regs x = 0x1000 + of_nat x"

text \<open>Register \<open>x\<close> holds \<open>100 + x\<close>.\<close>

definition later_regs :: "nat \<Rightarrow> 32 word" where
  "later_regs x = 100 + of_nat x"

section \<open>The 10-bit mask\<close>

lemma mask10_eq: "(v :: 32 word) AND 0x3ff = take_bit 10 v"
  by (simp add: take_bit_eq_mask mask_eq_exp_minus_1)

lemma unat_stored: "unat (stored v) = unat v mod 1024"
proof -
  have "unat (ucast (take_bit 10 v) :: 16 word) = take_bit 16 (take_bit 10 (unat v))"
    by (simp only: unsigned_ucast_eq unsigned_take_bit_eq len_bit0 len_num1) simp
  also have "\<dots> = unat v mod 1024"
    by (simp add: take_bit_eq_mod)
  finally show ?thesis by (simp only: stored_def mask10_eq)
qed

lemma stored_le: "unat (stored v) \<le> 1023"
proof -
  have "unat v mod 1024 < 1024" by simp
  then have "unat v mod 1024 \<le> 1023" by linarith
  then show ?thesis by (simp only: unat_stored)
qed

lemma unat_stored_id: "v \<le> 1023 \<Longrightarrow> unat (stored v) = unat v"
  by (simp only: unat_stored) (simp add: word_le_nat_alt)

section \<open>insertSample\<close>

lemma insertSample_full:
  "N \<le> unat (sample_buffer_current_index s) \<Longrightarrow>
   insertSample N v s =
     s\<lparr>T3CON_ON := False, sample_buffer_full := 1, trace := trace s @ [WrT3ON False]\<rparr>"
  by (simp add: insertSample_def Let_def)

lemma insertSample_room:
  "unat (sample_buffer_current_index s) < N \<Longrightarrow>
   insertSample N v s =
     s\<lparr>adc_sample_buffer :=
         (adc_sample_buffer s)[unat (sample_buffer_current_index s) := stored v],
       sample_buffer_current_index := sample_buffer_current_index s + 1,
       trace := trace s @ [WrSample (unat (sample_buffer_current_index s)) (stored v)]\<rparr>"
  by (simp add: insertSample_def stored_def Let_def)

lemma unat_index_Suc:
  "unat (i :: 32 word) < N \<Longrightarrow> N < 2 ^ 32 \<Longrightarrow> unat (i + 1) = Suc (unat i)"
  by (simp add: unat_word_ariths)

lemma insertSample_frame:
  "ADC1BUF (insertSample N v s) = ADC1BUF s"
  "AD1CON2_BUFS (insertSample N v s) = AD1CON2_BUFS s"
  "IFS1_AD1IF (insertSample N v s) = IFS1_AD1IF s"
  "interrupts_enabled (insertSample N v s) = interrupts_enabled s"
  "length (adc_sample_buffer (insertSample N v s)) = length (adc_sample_buffer s)"
  by (simp_all add: insertSample_def Let_def)

section \<open>Events of the trace\<close>

lemma reads_of_append: "reads_of (es @ fs) = reads_of es @ reads_of fs"
  by (induction es rule: reads_of.induct) simp_all

lemma stores_of_append: "stores_of (es @ fs) = stores_of es @ stores_of fs"
  by (induction es rule: stores_of.induct) simp_all

lemma flag_writes_of_append:
  "flag_writes_of (es @ fs) = flag_writes_of es @ flag_writes_of fs"
  by (induction es rule: flag_writes_of.induct) simp_all

lemma untraced_insertSample:
  "untraced (insertSample N v s) = untraced (insertSample N v (untraced s))"
  by (simp add: insertSample_def Let_def untraced_def)

lemma untraced_fold_insertSample:
  "untraced (fold (insertSample N) vs s) = untraced (fold (insertSample N) vs (untraced s))"
proof (induction vs arbitrary: s)
  case Nil
  show ?case by (simp add: untraced_def)
next
  case (Cons v vs)
  have "untraced (fold (insertSample N) (v # vs) s) =
        untraced (fold (insertSample N) vs (untraced (insertSample N v s)))"
    using Cons.IH [of "insertSample N v s"] by simp
  also have "\<dots> =
        untraced (fold (insertSample N) vs (untraced (insertSample N v (untraced s))))"
    by (simp only: untraced_insertSample [symmetric])
  also have "\<dots> = untraced (fold (insertSample N) (v # vs) (untraced s))"
    using Cons.IH [of "insertSample N v (untraced s)"] by simp
  finally show ?case .
qed

lemma replicate_numeral: "replicate (numeral k) x = x # replicate (pred_numeral k) x"
  by (simp add: numeral_eq_Suc)

lemma list_update_Cons_numeral: "(x # xs)[numeral k := y] = x # xs[pred_numeral k := y]"
  by (simp add: numeral_eq_Suc)

lemmas concrete_defs = startup_def quiet_hw_def initADC_def insertSample_def Let_def
  beginFillingADCBuffer_def disableInterrupts_def restoreInterrupts_def
  replicate_numeral list_update_Cons_numeral

section \<open>Claims about insertSample\<close>

text \<open>
  C1. A call of \<open>insertSample\<close> with any 32-bit value \<open>v\<close> masks the value to its
  low ten bits. When the write index is below \<open>N\<close>, the masked value is stored at the
  write index (the entry read back has the unsigned value \<open>v mod 1024\<close>), the index
  grows by exactly one, and the full flag and the timer are left alone. Otherwise the
  full flag is set, the timer is turned off, and neither the buffer nor the index
  changes: no store is made.
\<close>

theorem insertSample_masks_then_stores_or_stops:
  "(unat (sample_buffer_current_index s) < N \<longrightarrow>
      adc_sample_buffer (insertSample N v s) =
        (adc_sample_buffer s)[unat (sample_buffer_current_index s) := ucast (v AND 0x3ff)]
    \<and> unat (ucast (v AND 0x3ff) :: 16 word) = unat v mod 2 ^ 10
    \<and> sample_buffer_current_index (insertSample N v s) = sample_buffer_current_index s + 1
    \<and> (N < 2 ^ 32 \<longrightarrow>
         unat (sample_buffer_current_index (insertSample N v s)) =
           unat (sample_buffer_current_index s) + 1)
    \<and> (length (adc_sample_buffer s) = N \<longrightarrow>
         adc_sample_buffer (insertSample N v s) ! unat (sample_buffer_current_index s) =
           ucast (v AND 0x3ff))
    \<and> sample_buffer_full (insertSample N v s) = sample_buffer_full s
    \<and> T3CON_ON (insertSample N v s) = T3CON_ON s
    \<and> stores_of (trace (insertSample N v s)) =
        stores_of (trace s) @
          [(unat (sample_buffer_current_index s), ucast (v AND 0x3ff))])
   \<and> (N \<le> unat (sample_buffer_current_index s) \<longrightarrow>
      sample_buffer_full (insertSample N v s) = 1
    \<and> \<not> T3CON_ON (insertSample N v s)
    \<and> adc_sample_buffer (insertSample N v s) = adc_sample_buffer s
    \<and> sample_buffer_current_index (insertSample N v s) = sample_buffer_current_index s
    \<and> stores_of (trace (insertSample N v s)) = stores_of (trace s))"
proof (intro conjI impI)
  assume room: "unat (sample_buffer_current_index s) < N"
  show "adc_sample_buffer (insertSample N v s) =
        (adc_sample_buffer s)[unat (sample_buffer_current_index s) := ucast (v AND 0x3ff)]"
    using room by (simp add: insertSample_room stored_def)
  show "unat (ucast (v AND 0x3ff) :: 16 word) = unat v mod 2 ^ 10"
    using unat_stored [of v] by (simp add: stored_def)
  show "sample_buffer_current_index (insertSample N v s) = sample_buffer_current_index s + 1"
    using room by (simp add: insertSample_room)
  show "sample_buffer_full (insertSample N v s) = sample_buffer_full s"
    using room by (simp add: insertSample_room)
  show "T3CON_ON (insertSample N v s) = T3CON_ON s"
    using room by (simp add: insertSample_room)
  show "stores_of (trace (insertSample N v s)) =
        stores_of (trace s) @ [(unat (sample_buffer_current_index s), ucast (v AND 0x3ff))]"
    using room by (simp add: insertSample_room stored_def stores_of_append)
  { assume "N < 2 ^ 32"
    then show "unat (sample_buffer_current_index (insertSample N v s)) =
           unat (sample_buffer_current_index s) + 1"
      using room by (simp add: insertSample_room unat_index_Suc) }
  { assume "length (adc_sample_buffer s) = N"
    then show "adc_sample_buffer (insertSample N v s) ! unat (sample_buffer_current_index s) =
           ucast (v AND 0x3ff)"
      using room by (simp add: insertSample_room stored_def) }
next
  assume full: "N \<le> unat (sample_buffer_current_index s)"
  show "sample_buffer_full (insertSample N v s) = 1"
    using full by (simp add: insertSample_full)
  show "\<not> T3CON_ON (insertSample N v s)"
    using full by (simp add: insertSample_full)
  show "adc_sample_buffer (insertSample N v s) = adc_sample_buffer s"
    using full by (simp add: insertSample_full)
  show "sample_buffer_current_index (insertSample N v s) = sample_buffer_current_index s"
    using full by (simp add: insertSample_full)
  show "stores_of (trace (insertSample N v s)) = stores_of (trace s)"
    using full by (simp add: insertSample_full stores_of_append)
qed



theorem insertSample_masks_then_stores_or_stops_witness:
  "unat (sample_buffer_current_index (startup 2 quiet_hw)) < 2
   \<and> (2 :: nat) < 2 ^ 32
   \<and> length (adc_sample_buffer (startup 2 quiet_hw)) = 2
   \<and> adc_sample_buffer (insertSample 2 0x12345 (startup 2 quiet_hw)) = [0x345, 0]
   \<and> unat (sample_buffer_current_index (insertSample 2 0x12345 (startup 2 quiet_hw))) = 1
   \<and> sample_buffer_full (insertSample 2 0x12345 (startup 2 quiet_hw)) = 0
   \<and> 2 \<le> unat (sample_buffer_current_index (insertSample 2 6 (insertSample 2 5 (startup 2 quiet_hw))))
   \<and> sample_buffer_full
        (insertSample 2 7 (insertSample 2 6 (insertSample 2 5 (startup 2 quiet_hw)))) = 1
   \<and> adc_sample_buffer
        (insertSample 2 7 (insertSample 2 6 (insertSample 2 5 (startup 2 quiet_hw)))) = [5, 6]"
  using insertSample_masks_then_stores_or_stops [of "startup 2 quiet_hw" 2 "0x12345"]
    insertSample_masks_then_stores_or_stops
      [of "insertSample 2 6 (insertSample 2 5 (startup 2 quiet_hw))" 2 7]
  by (simp add: concrete_defs)

section \<open>A run of insertSample calls\<close>

text \<open>
  Calling \<open>insertSample\<close> for the values \<open>vs\<close> in turn, from write index \<open>i\<close>: the first
  \<open>N - i\<close> values go to positions \<open>i\<close>, \<open>i + 1\<close>, ...; the others are dropped.
\<close>

lemma fold_insertSample_buffer:
  "length (adc_sample_buffer s) = N \<Longrightarrow> N < 2 ^ 32 \<Longrightarrow>
   unat (sample_buffer_current_index s) \<le> N \<Longrightarrow>
   adc_sample_buffer (fold (insertSample N) vs s) =
     take (unat (sample_buffer_current_index s)) (adc_sample_buffer s) @
     take (N - unat (sample_buffer_current_index s)) (map stored vs) @
     drop (unat (sample_buffer_current_index s) + length vs) (adc_sample_buffer s)
   \<and> unat (sample_buffer_current_index (fold (insertSample N) vs s)) =
     min N (unat (sample_buffer_current_index s) + length vs)"
proof (induction vs arbitrary: s)
  case Nil
  then show ?case by simp
next
  case (Cons v vs)
  let ?i = "unat (sample_buffer_current_index s)"
  let ?s1 = "insertSample N v s"
  show ?case
  proof (cases "?i < N")
    case True
    have i1: "unat (sample_buffer_current_index ?s1) = Suc ?i"
      using True Cons.prems by (simp add: insertSample_room unat_index_Suc)
    have b1: "adc_sample_buffer ?s1 = (adc_sample_buffer s)[?i := stored v]"
      using True by (simp add: insertSample_room)
    have len1: "length (adc_sample_buffer ?s1) = N"
      using Cons.prems by (simp add: b1)
    have le1: "unat (sample_buffer_current_index ?s1) \<le> N"
      using True by (simp add: i1)
    note IH = Cons.IH [OF len1 Cons.prems(2) le1]
    have tk: "take (Suc ?i) ((adc_sample_buffer s)[?i := stored v]) =
              take ?i (adc_sample_buffer s) @ [stored v]"
      using True Cons.prems(1) by (simp add: take_Suc_conv_app_nth)
    have "N - ?i = Suc (N - Suc ?i)" using True by simp
    then have tk2: "take (N - ?i) (stored v # map stored vs) =
                    stored v # take (N - Suc ?i) (map stored vs)"
      by simp
    show ?thesis
      using IH True by (simp add: i1 b1 tk tk2 del: take_Suc_Cons)
  next
    case False
    then have eq: "?i = N" using Cons.prems by simp
    have i1: "sample_buffer_current_index ?s1 = sample_buffer_current_index s"
      using eq by (simp add: insertSample_full)
    have b1: "adc_sample_buffer ?s1 = adc_sample_buffer s"
      using eq by (simp add: insertSample_full)
    have len1: "length (adc_sample_buffer ?s1) = N"
      using Cons.prems by (simp add: b1)
    have le1: "unat (sample_buffer_current_index ?s1) \<le> N"
      using eq by (simp add: i1)
    note IH = Cons.IH [OF len1 Cons.prems(2) le1]
    show ?thesis
      using IH eq Cons.prems(1) by (simp add: i1 b1)
  qed
qed

lemma fold_insertSample_flag:
  "N < 2 ^ 32 \<Longrightarrow> unat (sample_buffer_current_index s) \<le> N \<Longrightarrow>
   sample_buffer_full (fold (insertSample N) vs s) =
     (if N < unat (sample_buffer_current_index s) + length vs then 1 else sample_buffer_full s)
   \<and> T3CON_ON (fold (insertSample N) vs s) =
     (if N < unat (sample_buffer_current_index s) + length vs then False else T3CON_ON s)"
proof (induction vs arbitrary: s)
  case Nil
  then show ?case by simp
next
  case (Cons v vs)
  let ?i = "unat (sample_buffer_current_index s)"
  let ?s1 = "insertSample N v s"
  show ?case
  proof (cases "?i < N")
    case True
    have i1: "unat (sample_buffer_current_index ?s1) = Suc ?i"
      using True Cons.prems by (simp add: insertSample_room unat_index_Suc)
    have f1: "sample_buffer_full ?s1 = sample_buffer_full s" "T3CON_ON ?s1 = T3CON_ON s"
      using True by (simp_all add: insertSample_room)
    have le1: "unat (sample_buffer_current_index ?s1) \<le> N"
      using True by (simp add: i1)
    note IH = Cons.IH [OF Cons.prems(1) le1]
    show ?thesis using IH by (simp add: i1 f1)
  next
    case False
    then have eq: "?i = N" using Cons.prems by simp
    have i1: "sample_buffer_current_index ?s1 = sample_buffer_current_index s"
      using eq by (simp add: insertSample_full)
    have f1: "sample_buffer_full ?s1 = 1" "T3CON_ON ?s1 = False"
      using eq by (simp_all add: insertSample_full)
    have le1: "unat (sample_buffer_current_index ?s1) \<le> N"
      using eq by (simp add: i1)
    note IH = Cons.IH [OF Cons.prems(1) le1]
    show ?thesis using IH eq by (simp add: i1 f1)
  qed
qed

section \<open>The handler as eight insertSample calls\<close>

text \<open>The registers of the bank that is not being filled, in the order of the calls.\<close>

lemma ADCHandler_fold:
  "ADCHandler N s =
     (fold (drain N) (if AD1CON2_BUFS s then [0, 1, 2, 3, 4, 5, 6, 7]
                       else [8, 9, 10, 11, 12, 13, 14, 15])
        (s\<lparr>trace := trace s @ [RdBUFS]\<rparr>))
     \<lparr>IFS1_AD1IF := False,
      trace := trace (fold (drain N) (if AD1CON2_BUFS s then [0, 1, 2, 3, 4, 5, 6, 7]
                       else [8, 9, 10, 11, 12, 13, 14, 15])
        (s\<lparr>trace := trace s @ [RdBUFS]\<rparr>)) @ [WrAD1IF False]\<rparr>"
  by (simp only: ADCHandler_def Let_def) simp

lemma untraced_drain:
  "untraced (drain N x s) = untraced (insertSample N (ADC1BUF s x) s)"
  by (simp add: drain_def insertSample_def Let_def untraced_def)

lemma ADC1BUF_drain: "ADC1BUF (drain N x s) = ADC1BUF s"
  by (simp add: drain_def insertSample_frame)

lemma untraced_fold_drain:
  "untraced (fold (drain N) xs s) = untraced (fold (insertSample N) (map (ADC1BUF s) xs) s)"
proof (induction xs arbitrary: s)
  case Nil
  show ?case by simp
next
  case (Cons x xs)
  let ?v = "ADC1BUF s x"
  have "untraced (fold (drain N) (x # xs) s) =
        untraced (fold (insertSample N) (map (ADC1BUF s) xs) (drain N x s))"
    using Cons.IH [of "drain N x s"] by (simp add: ADC1BUF_drain)
  also have "\<dots> =
        untraced (fold (insertSample N) (map (ADC1BUF s) xs) (untraced (drain N x s)))"
    by (rule untraced_fold_insertSample)
  also have "\<dots> =
        untraced (fold (insertSample N) (map (ADC1BUF s) xs) (untraced (insertSample N ?v s)))"
    by (simp only: untraced_drain)
  also have "\<dots> =
        untraced (fold (insertSample N) (map (ADC1BUF s) xs) (insertSample N ?v s))"
    by (rule untraced_fold_insertSample [symmetric])
  finally show ?case by simp
qed

lemma untraced_ADCHandler:
  "untraced (ADCHandler N s) =
   untraced ((fold (insertSample N)
               (map (ADC1BUF s) (if AD1CON2_BUFS s then [0, 1, 2, 3, 4, 5, 6, 7]
                                 else [8, 9, 10, 11, 12, 13, 14, 15])) s)
             \<lparr>IFS1_AD1IF := False\<rparr>)"
proof -
  let ?xs = "if AD1CON2_BUFS s then [0, 1, 2, 3, 4, 5, 6, 7]
             else [8, 9, 10, 11, 12, 13, 14, 15 :: nat]"
  let ?s0 = "s\<lparr>trace := trace s @ [RdBUFS]\<rparr>"
  have "untraced (ADCHandler N s) = (untraced (fold (drain N) ?xs ?s0))\<lparr>IFS1_AD1IF := False\<rparr>"
    by (simp only: ADCHandler_fold) (simp add: untraced_def)
  also have "untraced (fold (drain N) ?xs ?s0) =
             untraced (fold (insertSample N) (map (ADC1BUF s) ?xs) ?s0)"
    using untraced_fold_drain [of N ?xs ?s0] by simp
  also have "\<dots> = untraced (fold (insertSample N) (map (ADC1BUF s) ?xs) (untraced ?s0))"
    by (rule untraced_fold_insertSample)
  also have "untraced ?s0 = untraced s"
    by (simp add: untraced_def)
  also have "untraced (fold (insertSample N) (map (ADC1BUF s) ?xs) (untraced s)) =
             untraced (fold (insertSample N) (map (ADC1BUF s) ?xs) s)"
    by (rule untraced_fold_insertSample [symmetric])
  finally show ?thesis by (simp add: untraced_def)
qed

lemma trace_drain:
  "\<exists>ev. trace (drain N x s) = trace s @ [RdADC1BUF x, ev]
        \<and> reads_of [ev] = [] \<and> flag_writes_of [ev] = []"
  by (simp add: drain_def insertSample_def Let_def)

lemma trace_fold_drain:
  "\<exists>body. trace (fold (drain N) xs s) = trace s @ body
          \<and> reads_of body = xs \<and> flag_writes_of body = []"
proof (induction xs arbitrary: s)
  case Nil
  show ?case by simp
next
  case (Cons x xs)
  obtain ev where ev: "trace (drain N x s) = trace s @ [RdADC1BUF x, ev]"
      "reads_of [ev] = []" "flag_writes_of [ev] = []"
    using trace_drain by blast
  obtain body where body: "trace (fold (drain N) xs (drain N x s)) = trace (drain N x s) @ body"
      "reads_of body = xs" "flag_writes_of body = []"
    using Cons.IH by blast
  have "reads_of ([RdADC1BUF x, ev] @ body) = x # xs"
    using ev(2) body(2) by (simp only: reads_of_append reads_of.simps) (cases ev; simp)
  moreover have "flag_writes_of ([RdADC1BUF x, ev] @ body) = []"
    using ev(3) body(3)
    by (simp only: flag_writes_of_append flag_writes_of.simps) (cases ev; simp)
  moreover have "trace (fold (drain N) (x # xs) s) = trace s @ ([RdADC1BUF x, ev] @ body)"
    using ev(1) body(1) by simp
  ultimately show ?case by blast
qed

section \<open>Claims about the interrupt handler\<close>

text \<open>
  C2. Every run of the handler reads \<open>BUFS\<close> first. When \<open>BUFS\<close> is 0 (the peripheral is
  filling registers 0 .. 7) it reads the registers 8, 9, .., 15 in this order, each once;
  when \<open>BUFS\<close> is 1 it reads 0, 1, .., 7. The variables and registers it leaves behind are
  those of eight \<open>insertSample\<close> calls, one per value read, in the order of the reads,
  followed by the clearing of the interrupt flag. The interrupt flag is written exactly
  once, as the last access of the handler, after all eight reads.
\<close>

theorem ADCHandler_drains_completed_bank:
  "(\<not> AD1CON2_BUFS s \<longrightarrow>
      (\<exists>body. trace (ADCHandler N s) = trace s @ [RdBUFS] @ body @ [WrAD1IF False]
          \<and> reads_of body = [8, 9, 10, 11, 12, 13, 14, 15]
          \<and> flag_writes_of body = [])
      \<and> untraced (ADCHandler N s) =
          untraced ((fold (insertSample N)
             (map (ADC1BUF s) [8, 9, 10, 11, 12, 13, 14, 15]) s)\<lparr>IFS1_AD1IF := False\<rparr>))
   \<and> (AD1CON2_BUFS s \<longrightarrow>
      (\<exists>body. trace (ADCHandler N s) = trace s @ [RdBUFS] @ body @ [WrAD1IF False]
          \<and> reads_of body = [0, 1, 2, 3, 4, 5, 6, 7]
          \<and> flag_writes_of body = [])
      \<and> untraced (ADCHandler N s) =
          untraced ((fold (insertSample N)
             (map (ADC1BUF s) [0, 1, 2, 3, 4, 5, 6, 7]) s)\<lparr>IFS1_AD1IF := False\<rparr>))
   \<and> \<not> IFS1_AD1IF (ADCHandler N s)"
proof -
  let ?xs = "if AD1CON2_BUFS s then [0, 1, 2, 3, 4, 5, 6, 7]
             else [8, 9, 10, 11, 12, 13, 14, 15 :: nat]"
  let ?s0 = "s\<lparr>trace := trace s @ [RdBUFS]\<rparr>"
  obtain body where body: "trace (fold (drain N) ?xs ?s0) = trace ?s0 @ body"
      "reads_of body = ?xs" "flag_writes_of body = []"
    using trace_fold_drain [of N ?xs ?s0] by blast
  have "trace (ADCHandler N s) = trace (fold (drain N) ?xs ?s0) @ [WrAD1IF False]"
    by (simp only: ADCHandler_fold) simp
  then have tr: "trace (ADCHandler N s) = trace s @ [RdBUFS] @ body @ [WrAD1IF False]"
    using body(1) by simp
  have ex: "\<exists>body. trace (ADCHandler N s) = trace s @ [RdBUFS] @ body @ [WrAD1IF False]
          \<and> reads_of body = ?xs \<and> flag_writes_of body = []"
    using tr body(2,3) by blast
  have un: "untraced (ADCHandler N s) =
      untraced ((fold (insertSample N) (map (ADC1BUF s) ?xs) s)\<lparr>IFS1_AD1IF := False\<rparr>)"
    by (rule untraced_ADCHandler)
  have clr: "\<not> IFS1_AD1IF (ADCHandler N s)"
    by (simp only: ADCHandler_fold) simp
  show ?thesis
  proof (cases "AD1CON2_BUFS s")
    case True
    then show ?thesis using ex un clr by simp
  next
    case False
    then show ?thesis using ex un clr by simp
  qed
qed


theorem ADCHandler_drains_completed_bank_witness:
  "\<not> AD1CON2_BUFS ((startup 4 quiet_hw)\<lparr>ADC1BUF := wide_regs\<rparr>)
   \<and> adc_sample_buffer (untraced (ADCHandler 4 ((startup 4 quiet_hw)\<lparr>ADC1BUF := wide_regs\<rparr>)))
       = [8, 9, 10, 11]
   \<and> AD1CON2_BUFS ((startup 4 quiet_hw)\<lparr>AD1CON2_BUFS := True, ADC1BUF := wide_regs\<rparr>)
   \<and> adc_sample_buffer (untraced (ADCHandler 4
         ((startup 4 quiet_hw)\<lparr>AD1CON2_BUFS := True, ADC1BUF := wide_regs\<rparr>)))
       = [0, 1, 2, 3]"
  using ADCHandler_drains_completed_bank
      [of "(startup 4 quiet_hw)\<lparr>ADC1BUF := wide_regs\<rparr>" 4]
    ADCHandler_drains_completed_bank
      [of "(startup 4 quiet_hw)\<lparr>AD1CON2_BUFS := True, ADC1BUF := wide_regs\<rparr>" 4]
  by (simp add: concrete_defs wide_regs_def untraced_def)

section \<open>Runs of interrupts as runs of insertSample calls\<close>

lemma same_core_refl: "same_core a a"
  by (simp add: same_core_def)

lemma same_core_trans: "same_core a b \<Longrightarrow> same_core b c \<Longrightarrow> same_core a c"
  by (simp add: same_core_def)

lemma same_core_insertSample:
  "same_core a b \<Longrightarrow> same_core (insertSample N v a) (insertSample N v b)"
  by (simp add: same_core_def insertSample_def Let_def stores_of_append)

lemma same_core_fold_insertSample:
  "same_core a b \<Longrightarrow> same_core (fold (insertSample N) vs a) (fold (insertSample N) vs b)"
  by (induction vs arbitrary: a b) (simp_all add: same_core_insertSample)

lemma same_core_drain: "same_core (drain N x s) (insertSample N (ADC1BUF s x) s)"
proof -
  have "same_core (s\<lparr>trace := trace s @ [RdADC1BUF x]\<rparr>) s"
    by (simp add: same_core_def stores_of_append)
  then show ?thesis
    unfolding drain_def by (rule same_core_insertSample)
qed

lemma same_core_fold_drain:
  "same_core (fold (drain N) xs s) (fold (insertSample N) (map (ADC1BUF s) xs) s)"
proof (induction xs arbitrary: s)
  case Nil
  show ?case by (simp add: same_core_refl)
next
  case (Cons x xs)
  have "same_core (fold (drain N) xs (drain N x s))
          (fold (insertSample N) (map (ADC1BUF s) xs) (drain N x s))"
    using Cons.IH [of "drain N x s"] by (simp add: ADC1BUF_drain)
  moreover have "same_core (fold (insertSample N) (map (ADC1BUF s) xs) (drain N x s))
          (fold (insertSample N) (map (ADC1BUF s) xs) (insertSample N (ADC1BUF s x) s))"
    by (rule same_core_fold_insertSample [OF same_core_drain])
  ultimately show ?case
    using same_core_trans by simp
qed

lemma same_core_ADCHandler:
  "same_core (ADCHandler N s)
     (fold (insertSample N) (map (ADC1BUF s) (completed_bank (AD1CON2_BUFS s))) s)"
proof -
  let ?xs = "completed_bank (AD1CON2_BUFS s)"
  let ?s0 = "s\<lparr>trace := trace s @ [RdBUFS]\<rparr>"
  have "same_core (ADCHandler N s) (fold (drain N) ?xs ?s0)"
    by (simp only: ADCHandler_fold completed_bank_def [symmetric])
       (simp add: same_core_def stores_of_append)
  moreover have "same_core (fold (drain N) ?xs ?s0)
       (fold (insertSample N) (map (ADC1BUF s) ?xs) ?s0)"
    using same_core_fold_drain [of N ?xs ?s0] by simp
  moreover have "same_core ?s0 s"
    by (simp add: same_core_def stores_of_append)
  then have "same_core (fold (insertSample N) (map (ADC1BUF s) ?xs) ?s0)
       (fold (insertSample N) (map (ADC1BUF s) ?xs) s)"
    by (rule same_core_fold_insertSample)
  ultimately show ?thesis
    using same_core_trans by blast
qed

lemma same_core_exec_Irq:
  "same_core (exec N (Irq bufs regs) s) (fold (insertSample N) (delivered (Irq bufs regs)) s)"
proof -
  let ?s0 = "s\<lparr>AD1CON2_BUFS := bufs, IFS1_AD1IF := True, ADC1BUF := regs\<rparr>"
  have "same_core (ADCHandler N ?s0)
          (fold (insertSample N) (map regs (completed_bank bufs)) ?s0)"
    using same_core_ADCHandler [of N ?s0] by simp
  moreover have "same_core ?s0 s"
    by (simp add: same_core_def)
  then have "same_core (fold (insertSample N) (map regs (completed_bank bufs)) ?s0)
          (fold (insertSample N) (map regs (completed_bank bufs)) s)"
    by (rule same_core_fold_insertSample)
  ultimately show ?thesis
    using same_core_trans by simp
qed

lemma same_core_run_irqs:
  "list_all is_Irq steps \<Longrightarrow>
   same_core a b \<Longrightarrow>
   same_core (run N steps a) (fold (insertSample N) (concat (map delivered steps)) b)"
proof (induction steps arbitrary: a b)
  case Nil
  then show ?case by (simp add: run_def)
next
  case (Cons st steps)
  from Cons.prems(1) obtain bufs regs where st: "st = Irq bufs regs"
    by (cases st) simp_all
  have "same_core (exec N st a) (fold (insertSample N) (delivered st) a)"
    unfolding st by (rule same_core_exec_Irq)
  moreover have "same_core (fold (insertSample N) (delivered st) a)
                           (fold (insertSample N) (delivered st) b)"
    using Cons.prems(2) by (rule same_core_fold_insertSample)
  ultimately have "same_core (exec N st a) (fold (insertSample N) (delivered st) b)"
    by (rule same_core_trans)
  then have "same_core (run N steps (exec N st a))
     (fold (insertSample N) (concat (map delivered steps))
        (fold (insertSample N) (delivered st) b))"
    using Cons.IH Cons.prems(1) by simp
  then show ?case by (simp add: run_def)
qed

lemma length_delivered: "is_Irq st \<Longrightarrow> length (delivered st) = 8"
  by (cases st) (simp_all add: completed_bank_def)

lemma length_concat_delivered:
  "list_all is_Irq steps \<Longrightarrow> length (concat (map delivered steps)) = 8 * length steps"
  by (induction steps) (simp_all add: length_delivered)

lemma fold_insertSample_stores:
  "N < 2 ^ 32 \<Longrightarrow> unat (sample_buffer_current_index s) \<le> N \<Longrightarrow>
   stores_of (trace (fold (insertSample N) vs s)) =
     stores_of (trace s) @ zip [unat (sample_buffer_current_index s) ..< N] (map stored vs)"
proof (induction vs arbitrary: s)
  case Nil
  then show ?case by simp
next
  case (Cons v vs)
  let ?i = "unat (sample_buffer_current_index s)"
  let ?s1 = "insertSample N v s"
  show ?case
  proof (cases "?i < N")
    case True
    have i1: "unat (sample_buffer_current_index ?s1) = Suc ?i"
      using True Cons.prems by (simp add: insertSample_room unat_index_Suc)
    have t1: "stores_of (trace ?s1) = stores_of (trace s) @ [(?i, stored v)]"
      using True by (simp add: insertSample_room stores_of_append)
    have le1: "unat (sample_buffer_current_index ?s1) \<le> N"
      using True by (simp add: i1)
    note IH = Cons.IH [OF Cons.prems(1) le1]
    have "[?i ..< N] = ?i # [Suc ?i ..< N]"
      using True by (rule upt_conv_Cons)
    then show ?thesis using IH by (simp add: i1 t1)
  next
    case False
    then have eq: "?i = N" using Cons.prems by simp
    have i1: "sample_buffer_current_index ?s1 = sample_buffer_current_index s"
      using eq by (simp add: insertSample_full)
    have t1: "stores_of (trace ?s1) = stores_of (trace s)"
      using eq by (simp add: insertSample_full stores_of_append)
    have le1: "unat (sample_buffer_current_index ?s1) \<le> N"
      using eq by (simp add: i1)
    note IH = Cons.IH [OF Cons.prems(1) le1]
    show ?thesis using IH eq by (simp add: i1 t1)
  qed
qed

section \<open>An invariant of the driver\<close>

lemma unat_index_plus_one_le: "unat ((i :: 32 word) + 1) \<le> Suc (unat i)"
proof -
  have "unat (i + 1) = (unat i + 1) mod 2 ^ 32"
    by (simp add: unat_word_ariths)
  also have "\<dots> \<le> unat i + 1"
    by (rule mod_less_eq_dividend)
  finally show ?thesis by simp
qed

lemma list_all_update: "list_all P xs \<Longrightarrow> P x \<Longrightarrow> list_all P (xs[i := x])"
proof -
  assume a: "list_all P xs" "P x"
  have "set (xs[i := x]) \<subseteq> insert x (set xs)"
    by (rule set_update_subset_insert)
  then show ?thesis using a by (auto simp: list_all_iff)
qed

lemma ten_bit_stored: "ten_bit (stored v)"
  using stored_le [of v] by simp

lemma driver_inv_insertSample:
  assumes "driver_inv N s"
  shows "driver_inv N (insertSample N v s)"
proof (cases "unat (sample_buffer_current_index s) < N")
  case True
  have "unat (sample_buffer_current_index s + 1) \<le> N"
    using True unat_index_plus_one_le [of "sample_buffer_current_index s"] by linarith
  moreover have "list_all ten_bit
      ((adc_sample_buffer s)[unat (sample_buffer_current_index s) := stored v])"
    using assms by (simp only: driver_inv_def list_all_update ten_bit_stored)
  ultimately show ?thesis
    using assms True ten_bit_stored [of v]
    by (simp add: insertSample_room driver_inv_def stores_of_append)
next
  case False
  then show ?thesis
    using assms by (simp add: insertSample_full driver_inv_def stores_of_append)
qed

lemma driver_inv_drain: "driver_inv N s \<Longrightarrow> driver_inv N (drain N x s)"
proof -
  assume "driver_inv N s"
  then have "driver_inv N (s\<lparr>trace := trace s @ [RdADC1BUF x]\<rparr>)"
    by (simp add: driver_inv_def stores_of_append)
  then show ?thesis
    unfolding drain_def by (rule driver_inv_insertSample)
qed

lemma driver_inv_fold_drain: "driver_inv N s \<Longrightarrow> driver_inv N (fold (drain N) xs s)"
  by (induction xs arbitrary: s) (simp_all add: driver_inv_drain)

lemma driver_inv_ADCHandler: "driver_inv N s \<Longrightarrow> driver_inv N (ADCHandler N s)"
proof -
  assume "driver_inv N s"
  then have "driver_inv N (s\<lparr>trace := trace s @ [RdBUFS]\<rparr>)"
    by (simp add: driver_inv_def stores_of_append)
  then have "driver_inv N (fold (drain N) (completed_bank (AD1CON2_BUFS s))
                 (s\<lparr>trace := trace s @ [RdBUFS]\<rparr>))"
    by (rule driver_inv_fold_drain)
  then show ?thesis
    by (simp only: ADCHandler_fold completed_bank_def [symmetric])
       (simp add: driver_inv_def stores_of_append)
qed

lemma beginFillingADCBuffer_eq:
  "beginFillingADCBuffer s =
     s\<lparr>sample_buffer_current_index := 0, sample_buffer_full := 0, T3CON_ON := True,
       trace := trace s @ [WrT3ON True]\<rparr>"
  by (simp add: beginFillingADCBuffer_def disableInterrupts_def restoreInterrupts_def Let_def)

lemma driver_inv_beginFillingADCBuffer:
  "driver_inv N s \<Longrightarrow> driver_inv N (beginFillingADCBuffer s)"
  by (simp add: beginFillingADCBuffer_eq driver_inv_def stores_of_append)

lemma driver_inv_exec: "driver_inv N s \<Longrightarrow> driver_inv N (exec N st s)"
proof (cases st)
  case Start
  assume "driver_inv N s"
  then show ?thesis using Start by (simp add: driver_inv_beginFillingADCBuffer)
next
  case (Irq bufs regs)
  assume "driver_inv N s"
  then have "driver_inv N (s\<lparr>AD1CON2_BUFS := bufs, IFS1_AD1IF := True, ADC1BUF := regs\<rparr>)"
    by (simp add: driver_inv_def)
  then show ?thesis using Irq by (simp add: driver_inv_ADCHandler)
qed

lemma driver_inv_run: "driver_inv N s \<Longrightarrow> driver_inv N (run N steps s)"
  by (induction steps arbitrary: s) (simp_all add: run_def driver_inv_exec)

lemma driver_inv_startup: "driver_inv N (startup N hw)"
  by (simp add: startup_def initADC_def Let_def driver_inv_def list_all_iff)

lemmas handler_defs = run_def ADCHandler_def drain_def

section \<open>Claims about every state the driver reaches\<close>

text \<open>
  C7. In every state reached from program start by any sequence of
  \<open>beginFillingADCBuffer\<close> calls and interrupts (with any register contents), the write
  index is at most \<open>N\<close>, the buffer still has \<open>N\<close> entries, and every store made so far
  went to a position below \<open>N\<close>. A single \<open>insertSample\<close> call, from any state at all,
  stores at a position below \<open>N\<close> or does not store; and it keeps the write index at
  most \<open>N\<close> when it was.
\<close>

theorem write_index_and_stores_within_buffer:
  "unat (sample_buffer_current_index (run N steps (startup N hw))) \<le> N
   \<and> length (adc_sample_buffer (run N steps (startup N hw))) = N
   \<and> list_all (in_range N) (stores_of (trace (run N steps (startup N hw))))
   \<and> list_all (in_range N) (stores_of (trace (insertSample N v (s\<lparr>trace := []\<rparr>))))
   \<and> (unat (sample_buffer_current_index s) \<le> N \<longrightarrow>
        unat (sample_buffer_current_index (insertSample N v s)) \<le> N)"
proof -
  have inv: "driver_inv N (run N steps (startup N hw))"
    by (rule driver_inv_run [OF driver_inv_startup])
  have one: "list_all (in_range N) (stores_of (trace (insertSample N v (s\<lparr>trace := []\<rparr>))))"
    by (simp add: insertSample_def Let_def)
  have keep: "unat (sample_buffer_current_index s) \<le> N \<longrightarrow>
        unat (sample_buffer_current_index (insertSample N v s)) \<le> N"
  proof
    assume le: "unat (sample_buffer_current_index s) \<le> N"
    show "unat (sample_buffer_current_index (insertSample N v s)) \<le> N"
    proof (cases "unat (sample_buffer_current_index s) < N")
      case True
      then show ?thesis
        using unat_index_plus_one_le [of "sample_buffer_current_index s"]
        by (simp add: insertSample_room)
    next
      case False
      then show ?thesis using le by (simp add: insertSample_full)
    qed
  qed
  show ?thesis
    using inv one keep by (simp add: driver_inv_def)
qed

theorem write_index_and_stores_within_buffer_witness:
  "unat (sample_buffer_current_index (startup 2 quiet_hw)) \<le> 2
   \<and> unat (sample_buffer_current_index (insertSample 2 5 (startup 2 quiet_hw))) \<le> 2
   \<and> stores_of (trace (run 2 [Start, Irq False wide_regs] (startup 2 quiet_hw)))
       = [(0, 8), (1, 9)]
   \<and> list_all (in_range 2)
        (stores_of (trace (run 2 [Start, Irq False wide_regs] (startup 2 quiet_hw))))
   \<and> unat (sample_buffer_current_index
        (run 2 [Start, Irq False wide_regs] (startup 2 quiet_hw))) = 2"
  using write_index_and_stores_within_buffer
      [of 2 "[Start, Irq False wide_regs]" quiet_hw 5 "startup 2 quiet_hw"]
  by (simp add: concrete_defs handler_defs wide_regs_def)

text \<open>
  C8. In every state reached from program start, every entry of the sample buffer is at
  most 1023, and every value ever stored was at most 1023. A single \<open>insertSample\<close>
  call, from any state and with any 32-bit argument, stores a value of at most 1023 (or
  nothing), and the entry it wrote reads back as at most 1023.
\<close>

theorem stored_samples_at_most_1023:
  "list_all ten_bit (adc_sample_buffer (run N steps (startup N hw)))
   \<and> list_all ten_bit (map snd (stores_of (trace (run N steps (startup N hw)))))
   \<and> list_all ten_bit (map snd (stores_of (trace (insertSample N v (s\<lparr>trace := []\<rparr>)))))
   \<and> (unat (sample_buffer_current_index s) < N \<and> length (adc_sample_buffer s) = N \<longrightarrow>
        unat (adc_sample_buffer (insertSample N v s) ! unat (sample_buffer_current_index s))
          \<le> 1023)"
proof -
  have inv: "driver_inv N (run N steps (startup N hw))"
    by (rule driver_inv_run [OF driver_inv_startup])
  have one: "list_all ten_bit
      (map snd (stores_of (trace (insertSample N v (s\<lparr>trace := []\<rparr>)))))"
    using stored_le [of v] by (simp add: insertSample_def Let_def stored_def)
  have rd: "unat (sample_buffer_current_index s) < N \<and> length (adc_sample_buffer s) = N \<longrightarrow>
        unat (adc_sample_buffer (insertSample N v s) ! unat (sample_buffer_current_index s))
          \<le> 1023"
    using stored_le [of v] by (simp add: insertSample_room)
  show ?thesis
    using inv one rd by (simp add: driver_inv_def)
qed

theorem stored_samples_at_most_1023_witness:
  "unat (sample_buffer_current_index (startup 2 quiet_hw)) < 2
   \<and> length (adc_sample_buffer (startup 2 quiet_hw)) = 2
   \<and> adc_sample_buffer (insertSample 2 0xFFFFFFFF (startup 2 quiet_hw)) ! 0 = 1023
   \<and> adc_sample_buffer (run 2 [Start, Irq False wide_regs] (startup 2 quiet_hw)) = [8, 9]
   \<and> list_all ten_bit
        (adc_sample_buffer (run 2 [Start, Irq False wide_regs] (startup 2 quiet_hw)))"
  using stored_samples_at_most_1023
      [of 2 "[Start, Irq False wide_regs]" quiet_hw "0xFFFFFFFF" "startup 2 quiet_hw"]
  by (simp add: concrete_defs handler_defs wide_regs_def)

section \<open>Claims about beginFillingADCBuffer\<close>

text \<open>
  C9. \<open>beginFillingADCBuffer\<close> changes the write index, the full flag and the timer bit
  and nothing else: the sample buffer, the ADC registers, the interrupt flag and the
  interrupt enable are as before. When at most \<open>N\<close> values are inserted after the
  restart, the entries beyond the last one written still hold the samples of the
  previous batch.
\<close>

theorem beginFillingADCBuffer_keeps_samples:
  "adc_sample_buffer (beginFillingADCBuffer s) = adc_sample_buffer s
   \<and> untraced (beginFillingADCBuffer s) =
       untraced (s\<lparr>sample_buffer_current_index := 0, sample_buffer_full := 0,
                   T3CON_ON := True\<rparr>)
   \<and> stores_of (trace (beginFillingADCBuffer s)) = stores_of (trace s)
   \<and> (length (adc_sample_buffer s) = N \<and> N < 2 ^ 32 \<and> length vs \<le> N \<longrightarrow>
        take (length vs)
          (adc_sample_buffer (fold (insertSample N) vs (beginFillingADCBuffer s)))
          = map stored vs
        \<and> drop (length vs)
          (adc_sample_buffer (fold (insertSample N) vs (beginFillingADCBuffer s)))
          = drop (length vs) (adc_sample_buffer s))"
proof -
  let ?b = "beginFillingADCBuffer s"
  have frame: "adc_sample_buffer ?b = adc_sample_buffer s"
    by (simp add: beginFillingADCBuffer_eq)
  have un: "untraced ?b =
       untraced (s\<lparr>sample_buffer_current_index := 0, sample_buffer_full := 0,
                   T3CON_ON := True\<rparr>)"
    by (simp add: beginFillingADCBuffer_eq untraced_def)
  have st: "stores_of (trace ?b) = stores_of (trace s)"
    by (simp add: beginFillingADCBuffer_eq stores_of_append)
  have later: "take (length vs) (adc_sample_buffer (fold (insertSample N) vs ?b)) = map stored vs
        \<and> drop (length vs) (adc_sample_buffer (fold (insertSample N) vs ?b))
          = drop (length vs) (adc_sample_buffer s)"
    if h: "length (adc_sample_buffer s) = N" "N < 2 ^ 32" "length vs \<le> N"
  proof -
    have i0: "unat (sample_buffer_current_index ?b) = 0"
      by (simp add: beginFillingADCBuffer_eq)
    have len: "length (adc_sample_buffer ?b) = N"
      using h(1) by (simp only: frame)
    have "adc_sample_buffer (fold (insertSample N) vs ?b) =
            take (N - 0) (map stored vs) @ drop (0 + length vs) (adc_sample_buffer s)"
      using fold_insertSample_buffer [OF len h(2), of vs] by (simp add: i0 frame)
    then have "adc_sample_buffer (fold (insertSample N) vs ?b) =
            map stored vs @ drop (length vs) (adc_sample_buffer s)"
      using h(3) by simp
    then show ?thesis by simp
  qed
  show ?thesis
    using frame un st later by blast
qed

theorem beginFillingADCBuffer_keeps_samples_witness:
  "length (adc_sample_buffer (insertSample 3 9 (insertSample 3 8 (insertSample 3 7
      (startup 3 quiet_hw))))) = 3
   \<and> (3 :: nat) < 2 ^ 32
   \<and> length [0x55 :: 32 word] \<le> 3
   \<and> adc_sample_buffer (beginFillingADCBuffer (insertSample 3 9 (insertSample 3 8
        (insertSample 3 7 (startup 3 quiet_hw))))) = [7, 8, 9]
   \<and> adc_sample_buffer (fold (insertSample 3) [0x55]
        (beginFillingADCBuffer (insertSample 3 9 (insertSample 3 8
           (insertSample 3 7 (startup 3 quiet_hw)))))) = [0x55, 8, 9]"
  using beginFillingADCBuffer_keeps_samples
     [of "insertSample 3 9 (insertSample 3 8 (insertSample 3 7 (startup 3 quiet_hw)))"
         3 "[0x55]"]
  by (simp add: concrete_defs)

section \<open>Calls made when the buffer is already full\<close>

lemma untraced_fold_insertSample_full:
  "N \<le> unat (sample_buffer_current_index s) \<Longrightarrow>
   untraced (fold (insertSample N) vs s) =
     untraced (if vs = [] then s else s\<lparr>T3CON_ON := False, sample_buffer_full := 1\<rparr>)"
proof (induction vs arbitrary: s)
  case Nil
  show ?case by simp
next
  case (Cons v vs)
  let ?s1 = "insertSample N v s"
  have s1: "?s1 = s\<lparr>T3CON_ON := False, sample_buffer_full := 1,
                     trace := trace s @ [WrT3ON False]\<rparr>"
    using Cons.prems by (rule insertSample_full)
  have "N \<le> unat (sample_buffer_current_index ?s1)"
    using Cons.prems by (simp add: s1)
  then have "untraced (fold (insertSample N) vs ?s1) =
     untraced (if vs = [] then ?s1 else ?s1\<lparr>T3CON_ON := False, sample_buffer_full := 1\<rparr>)"
    by (rule Cons.IH)
  also have "\<dots> = untraced (s\<lparr>T3CON_ON := False, sample_buffer_full := 1\<rparr>)"
    by (simp add: s1 untraced_def)
  finally show ?case by simp
qed

lemma stores_fold_insertSample_full:
  "N \<le> unat (sample_buffer_current_index s) \<Longrightarrow>
   stores_of (trace (fold (insertSample N) vs s)) = stores_of (trace s)"
proof (induction vs arbitrary: s)
  case Nil
  show ?case by simp
next
  case (Cons v vs)
  let ?s1 = "insertSample N v s"
  have s1: "?s1 = s\<lparr>T3CON_ON := False, sample_buffer_full := 1,
                     trace := trace s @ [WrT3ON False]\<rparr>"
    using Cons.prems by (rule insertSample_full)
  have "N \<le> unat (sample_buffer_current_index ?s1)"
    using Cons.prems by (simp add: s1)
  then have "stores_of (trace (fold (insertSample N) vs ?s1)) = stores_of (trace ?s1)"
    by (rule Cons.IH)
  then show ?case by (simp add: s1 stores_of_append)
qed

lemma trace_ADCHandler:
  "\<exists>body. trace (ADCHandler N s) = trace s @ [RdBUFS] @ body @ [WrAD1IF False]
      \<and> reads_of body = completed_bank (AD1CON2_BUFS s)
      \<and> flag_writes_of body = []"
proof -
  let ?xs = "completed_bank (AD1CON2_BUFS s)"
  let ?s0 = "s\<lparr>trace := trace s @ [RdBUFS]\<rparr>"
  obtain body where body: "trace (fold (drain N) ?xs ?s0) = trace ?s0 @ body"
      "reads_of body = ?xs" "flag_writes_of body = []"
    using trace_fold_drain [of N ?xs ?s0] by blast
  have "trace (ADCHandler N s) = trace (fold (drain N) ?xs ?s0) @ [WrAD1IF False]"
    by (simp only: ADCHandler_fold completed_bank_def [symmetric]) simp
  then have "trace (ADCHandler N s) = trace s @ [RdBUFS] @ body @ [WrAD1IF False]"
    using body(1) by simp
  then show ?thesis using body(2,3) by blast
qed

text \<open>
  C10. When the write index is already at or beyond \<open>N\<close>, a call of \<open>insertSample\<close>
  leaves the sample buffer and the write index as they are, turns the timer off and sets
  the full flag; a second such call changes nothing more. The handler run in such a
  state still reads the eight registers of the completed bank, makes no store, and
  writes the interrupt flag once, last; it leaves the buffer and the write index as they
  are, the timer off, the full flag set and the interrupt flag clear, and changes no
  other variable or register.
\<close>

theorem inserts_after_full_change_nothing:
  "N \<le> unat (sample_buffer_current_index s) \<longrightarrow>
     adc_sample_buffer (insertSample N v s) = adc_sample_buffer s
   \<and> sample_buffer_current_index (insertSample N v s) = sample_buffer_current_index s
   \<and> sample_buffer_full (insertSample N v s) = 1
   \<and> \<not> T3CON_ON (insertSample N v s)
   \<and> untraced (insertSample N v s) =
       untraced (s\<lparr>T3CON_ON := False, sample_buffer_full := 1\<rparr>)
   \<and> untraced (insertSample N w (insertSample N v s)) = untraced (insertSample N v s)
   \<and> untraced (ADCHandler N s) =
       untraced (s\<lparr>T3CON_ON := False, sample_buffer_full := 1, IFS1_AD1IF := False\<rparr>)
   \<and> stores_of (trace (ADCHandler N s)) = stores_of (trace s)
   \<and> (\<exists>body. trace (ADCHandler N s) = trace s @ [RdBUFS] @ body @ [WrAD1IF False]
         \<and> reads_of body = completed_bank (AD1CON2_BUFS s)
         \<and> flag_writes_of body = [])"
proof
  assume full: "N \<le> unat (sample_buffer_current_index s)"
  let ?vs = "map (ADC1BUF s) (completed_bank (AD1CON2_BUFS s))"
  have ne: "?vs \<noteq> []"
    by (simp add: completed_bank_def)
  have s1: "insertSample N v s = s\<lparr>T3CON_ON := False, sample_buffer_full := 1,
                     trace := trace s @ [WrT3ON False]\<rparr>"
    using full by (rule insertSample_full)
  have full1: "N \<le> unat (sample_buffer_current_index (insertSample N v s))"
    using full by (simp add: s1)
  have twice: "untraced (insertSample N w (insertSample N v s)) = untraced (insertSample N v s)"
    using insertSample_full [OF full1, of w] by (simp add: s1 untraced_def)
  have "untraced (ADCHandler N s) =
          untraced ((fold (insertSample N) ?vs s)\<lparr>IFS1_AD1IF := False\<rparr>)"
    by (simp only: untraced_ADCHandler completed_bank_def)
  also have "\<dots> = (untraced (fold (insertSample N) ?vs s))\<lparr>IFS1_AD1IF := False\<rparr>"
    by (simp add: untraced_def)
  also have "untraced (fold (insertSample N) ?vs s) =
          untraced (s\<lparr>T3CON_ON := False, sample_buffer_full := 1\<rparr>)"
    using untraced_fold_insertSample_full [OF full, of ?vs] ne by simp
  finally have handler: "untraced (ADCHandler N s) =
       untraced (s\<lparr>T3CON_ON := False, sample_buffer_full := 1, IFS1_AD1IF := False\<rparr>)"
    by (simp add: untraced_def)
  have "stores_of (trace (ADCHandler N s)) = stores_of (trace (fold (insertSample N) ?vs s))"
    using same_core_ADCHandler [of N s] by (simp add: same_core_def)
  then have nostore: "stores_of (trace (ADCHandler N s)) = stores_of (trace s)"
    using stores_fold_insertSample_full [OF full, of ?vs] by simp
  show "adc_sample_buffer (insertSample N v s) = adc_sample_buffer s
   \<and> sample_buffer_current_index (insertSample N v s) = sample_buffer_current_index s
   \<and> sample_buffer_full (insertSample N v s) = 1
   \<and> \<not> T3CON_ON (insertSample N v s)
   \<and> untraced (insertSample N v s) =
       untraced (s\<lparr>T3CON_ON := False, sample_buffer_full := 1\<rparr>)
   \<and> untraced (insertSample N w (insertSample N v s)) = untraced (insertSample N v s)
   \<and> untraced (ADCHandler N s) =
       untraced (s\<lparr>T3CON_ON := False, sample_buffer_full := 1, IFS1_AD1IF := False\<rparr>)
   \<and> stores_of (trace (ADCHandler N s)) = stores_of (trace s)
   \<and> (\<exists>body. trace (ADCHandler N s) = trace s @ [RdBUFS] @ body @ [WrAD1IF False]
         \<and> reads_of body = completed_bank (AD1CON2_BUFS s)
         \<and> flag_writes_of body = [])"
    using twice handler nostore trace_ADCHandler [of N s]
    by (simp add: s1 untraced_def)
qed

theorem inserts_after_full_change_nothing_witness:
  "2 \<le> unat (sample_buffer_current_index
       (insertSample 2 6 (insertSample 2 5 (startup 2 quiet_hw))))
   \<and> adc_sample_buffer (insertSample 2 7
        (insertSample 2 6 (insertSample 2 5 (startup 2 quiet_hw)))) = [5, 6]
   \<and> adc_sample_buffer (untraced (ADCHandler 2
        ((insertSample 2 6 (insertSample 2 5 (startup 2 quiet_hw)))\<lparr>ADC1BUF := wide_regs\<rparr>)))
       = [5, 6]
   \<and> sample_buffer_full (untraced (ADCHandler 2
        ((insertSample 2 6 (insertSample 2 5 (startup 2 quiet_hw)))\<lparr>ADC1BUF := wide_regs\<rparr>)))
       = 1"
  using inserts_after_full_change_nothing
      [of 2 "insertSample 2 6 (insertSample 2 5 (startup 2 quiet_hw))" 7 7]
    inserts_after_full_change_nothing
      [of 2 "(insertSample 2 6 (insertSample 2 5 (startup 2 quiet_hw)))\<lparr>ADC1BUF := wide_regs\<rparr>"
          7 7]
  by (simp add: concrete_defs untraced_def)

section \<open>A batch: interrupts after a start\<close>

lemma zip_take_right: "zip xs ys = zip xs (take (length xs) ys)"
proof (induction xs arbitrary: ys)
  case Nil
  show ?case by simp
next
  case (Cons x xs)
  show ?case
  proof (cases ys)
    case Nil
    then show ?thesis by simp
  next
    case (Cons y ys')
    then show ?thesis using Cons.IH [of ys'] by simp
  qed
qed

lemma run_Start: "run N (Start # steps) s = run N steps (beginFillingADCBuffer s)"
  by (simp add: run_def)

lemma run_irqs_core:
  assumes irqs: "list_all is_Irq steps"
    and len: "length (adc_sample_buffer s) = N"
    and small: "N < 2 ^ 32"
    and le: "unat (sample_buffer_current_index s) \<le> N"
  shows "adc_sample_buffer (run N steps s) =
           take (unat (sample_buffer_current_index s)) (adc_sample_buffer s) @
           take (N - unat (sample_buffer_current_index s))
             (map stored (concat (map delivered steps))) @
           drop (unat (sample_buffer_current_index s) + 8 * length steps) (adc_sample_buffer s)"
    and "unat (sample_buffer_current_index (run N steps s)) =
           min N (unat (sample_buffer_current_index s) + 8 * length steps)"
    and "sample_buffer_full (run N steps s) =
           (if N < unat (sample_buffer_current_index s) + 8 * length steps then 1
            else sample_buffer_full s)"
    and "T3CON_ON (run N steps s) =
           (if N < unat (sample_buffer_current_index s) + 8 * length steps then False
            else T3CON_ON s)"
    and "stores_of (trace (run N steps s)) =
           stores_of (trace s) @
           zip [unat (sample_buffer_current_index s) ..< N]
             (map stored (concat (map delivered steps)))"
proof -
  let ?vs = "concat (map delivered steps)"
  have core: "same_core (run N steps s) (fold (insertSample N) ?vs s)"
    using irqs same_core_refl by (rule same_core_run_irqs)
  have n: "length ?vs = 8 * length steps"
    using irqs by (rule length_concat_delivered)
  show "adc_sample_buffer (run N steps s) =
           take (unat (sample_buffer_current_index s)) (adc_sample_buffer s) @
           take (N - unat (sample_buffer_current_index s)) (map stored ?vs) @
           drop (unat (sample_buffer_current_index s) + 8 * length steps) (adc_sample_buffer s)"
    using core fold_insertSample_buffer [OF len small le, of ?vs]
    by (simp only: same_core_def n)
  show "unat (sample_buffer_current_index (run N steps s)) =
           min N (unat (sample_buffer_current_index s) + 8 * length steps)"
    using core fold_insertSample_buffer [OF len small le, of ?vs]
    by (simp only: same_core_def n)
  show "sample_buffer_full (run N steps s) =
           (if N < unat (sample_buffer_current_index s) + 8 * length steps then 1
            else sample_buffer_full s)"
    using core fold_insertSample_flag [OF small le, of ?vs]
    by (simp only: same_core_def n)
  show "T3CON_ON (run N steps s) =
           (if N < unat (sample_buffer_current_index s) + 8 * length steps then False
            else T3CON_ON s)"
    using core fold_insertSample_flag [OF small le, of ?vs]
    by (simp only: same_core_def n)
  show "stores_of (trace (run N steps s)) =
           stores_of (trace s) @
           zip [unat (sample_buffer_current_index s) ..< N] (map stored ?vs)"
    using core fold_insertSample_stores [OF small le, of ?vs]
    by (simp only: same_core_def)
qed

lemma full_insertSample_mono:
  "sample_buffer_full s \<noteq> 0 \<Longrightarrow> sample_buffer_full (insertSample N v s) \<noteq> 0"
  by (simp add: insertSample_def Let_def)

lemma full_fold_insertSample_mono:
  "sample_buffer_full s \<noteq> 0 \<Longrightarrow> sample_buffer_full (fold (insertSample N) vs s) \<noteq> 0"
  by (induction vs arbitrary: s) (simp_all add: full_insertSample_mono)

lemma full_run_irqs_mono:
  assumes "list_all is_Irq steps" and "sample_buffer_full s \<noteq> 0"
  shows "sample_buffer_full (run N steps s) \<noteq> 0"
proof -
  have "same_core (run N steps s) (fold (insertSample N) (concat (map delivered steps)) s)"
    using assms(1) same_core_refl by (rule same_core_run_irqs)
  then show ?thesis
    using full_fold_insertSample_mono [OF assms(2)] by (simp add: same_core_def)
qed

section \<open>Claims about the full flag\<close>

text \<open>
  C3, as stated: the full flag goes from false to true by the insert that makes the
  write index equal to \<open>N\<close>. With \<open>N = 1\<close>, after a start and one insert the write index
  is 1 and the full flag is still 0.
\<close>

theorem full_not_set_when_index_reaches_size:
  "unat (sample_buffer_current_index
      (insertSample 1 5 (beginFillingADCBuffer (startup 1 quiet_hw)))) = 1
   \<and> sample_buffer_full (insertSample 1 5 (beginFillingADCBuffer (startup 1 quiet_hw))) = 0"
  by (simp add: concrete_defs)

text \<open>
  C3, amended. The full flag goes from 0 to non-zero in an \<open>insertSample\<close> call exactly
  when that call finds the write index already at or beyond \<open>N\<close>. Such a call stores
  nothing, leaves the buffer and the write index as they are, and turns the timer off.
  A call that finds the write index below \<open>N\<close> stores one value at the write index and
  leaves the flag and the timer as they are; in particular the call that makes the
  write index equal to \<open>N\<close> leaves the flag at 0. Once the flag is non-zero, no
  \<open>insertSample\<close> call and no interrupt clears it; \<open>beginFillingADCBuffer\<close> clears it.
  In a batch (a start followed by interrupts), the flag is 0 and the timer is on as long
  as at most \<open>N\<close> values have been handed over, and the flag is 1 and the timer is off
  from then on: the flag is set once, by the first interrupt that hands over more than
  \<open>N\<close> values in total. The stores of the batch are those of the first \<open>N\<close> values handed
  over, at positions 0, 1, ..: no interrupt stores anything after them.
\<close>

theorem full_set_by_first_insert_after_index_reaches_size:
  "(sample_buffer_full s = 0 \<longrightarrow>
      (sample_buffer_full (insertSample N v s) \<noteq> 0
         \<longleftrightarrow> N \<le> unat (sample_buffer_current_index s)))
   \<and> (N \<le> unat (sample_buffer_current_index s) \<longrightarrow>
        sample_buffer_full (insertSample N v s) = 1
      \<and> \<not> T3CON_ON (insertSample N v s)
      \<and> stores_of (trace (insertSample N v s)) = stores_of (trace s)
      \<and> adc_sample_buffer (insertSample N v s) = adc_sample_buffer s
      \<and> sample_buffer_current_index (insertSample N v s) = sample_buffer_current_index s)
   \<and> (unat (sample_buffer_current_index s) < N \<longrightarrow>
        sample_buffer_full (insertSample N v s) = sample_buffer_full s
      \<and> T3CON_ON (insertSample N v s) = T3CON_ON s
      \<and> stores_of (trace (insertSample N v s)) =
          stores_of (trace s) @ [(unat (sample_buffer_current_index s), stored v)])
   \<and> (sample_buffer_full s = 0 \<and> unat (sample_buffer_current_index s) + 1 = N
        \<and> N < 2 ^ 32 \<longrightarrow>
      unat (sample_buffer_current_index (insertSample N v s)) = N
      \<and> sample_buffer_full (insertSample N v s) = 0)
   \<and> (sample_buffer_full s \<noteq> 0 \<longrightarrow> sample_buffer_full (insertSample N v s) \<noteq> 0)
   \<and> (sample_buffer_full s \<noteq> 0 \<and> list_all is_Irq steps \<longrightarrow>
        sample_buffer_full (run N steps s) \<noteq> 0)
   \<and> sample_buffer_full (beginFillingADCBuffer s) = 0
   \<and> (length (adc_sample_buffer s) = N \<and> N < 2 ^ 32 \<and> list_all is_Irq steps \<longrightarrow>
        sample_buffer_full (run N (Start # steps) s) =
          (if N < 8 * length steps then 1 else 0)
      \<and> T3CON_ON (run N (Start # steps) s) = (\<not> N < 8 * length steps)
      \<and> stores_of (trace (run N (Start # steps) s)) =
          stores_of (trace s) @
          zip [0 ..< N] (map stored (take N (concat (map delivered steps)))))"
proof (intro conjI impI)
  assume "sample_buffer_full s = 0"
  then show "sample_buffer_full (insertSample N v s) \<noteq> 0
         \<longleftrightarrow> N \<le> unat (sample_buffer_current_index s)"
    by (simp add: insertSample_def Let_def)
next
  assume full: "N \<le> unat (sample_buffer_current_index s)"
  show "sample_buffer_full (insertSample N v s) = 1"
    using full by (simp add: insertSample_full)
  show "\<not> T3CON_ON (insertSample N v s)"
    using full by (simp add: insertSample_full)
  show "stores_of (trace (insertSample N v s)) = stores_of (trace s)"
    using full by (simp add: insertSample_full stores_of_append)
  show "adc_sample_buffer (insertSample N v s) = adc_sample_buffer s"
    using full by (simp add: insertSample_full)
  show "sample_buffer_current_index (insertSample N v s) = sample_buffer_current_index s"
    using full by (simp add: insertSample_full)
next
  assume room: "unat (sample_buffer_current_index s) < N"
  show "sample_buffer_full (insertSample N v s) = sample_buffer_full s"
    using room by (simp add: insertSample_room)
  show "T3CON_ON (insertSample N v s) = T3CON_ON s"
    using room by (simp add: insertSample_room)
  show "stores_of (trace (insertSample N v s)) =
          stores_of (trace s) @ [(unat (sample_buffer_current_index s), stored v)]"
    using room by (simp add: insertSample_room stores_of_append)
next
  assume h: "sample_buffer_full s = 0 \<and> unat (sample_buffer_current_index s) + 1 = N
        \<and> N < 2 ^ 32"
  then have room: "unat (sample_buffer_current_index s) < N" by linarith
  have "unat (sample_buffer_current_index s + 1) = Suc (unat (sample_buffer_current_index s))"
    using room h by (simp only: unat_index_Suc)
  then show "unat (sample_buffer_current_index (insertSample N v s)) = N"
    using h room by (simp add: insertSample_room)
  show "sample_buffer_full (insertSample N v s) = 0"
    using h room by (simp add: insertSample_room)
next
  assume "sample_buffer_full s \<noteq> 0"
  then show "sample_buffer_full (insertSample N v s) \<noteq> 0"
    by (rule full_insertSample_mono)
next
  assume "sample_buffer_full s \<noteq> 0 \<and> list_all is_Irq steps"
  then show "sample_buffer_full (run N steps s) \<noteq> 0"
    by (simp add: full_run_irqs_mono)
next
  show "sample_buffer_full (beginFillingADCBuffer s) = 0"
    by (simp add: beginFillingADCBuffer_eq)
next
  assume h: "length (adc_sample_buffer s) = N \<and> N < 2 ^ 32 \<and> list_all is_Irq steps"
  let ?b = "beginFillingADCBuffer s"
  let ?vs = "concat (map delivered steps)"
  have irqs: "list_all is_Irq steps" and small: "N < 2 ^ 32"
    using h by simp_all
  have len: "length (adc_sample_buffer ?b) = N"
    using h by (simp add: beginFillingADCBuffer_eq)
  have i0: "unat (sample_buffer_current_index ?b) = 0"
    by (simp add: beginFillingADCBuffer_eq)
  have le: "unat (sample_buffer_current_index ?b) \<le> N"
    by (simp add: i0)
  have "sample_buffer_full (run N steps ?b) =
          (if N < 0 + 8 * length steps then 1 else sample_buffer_full ?b)"
    using run_irqs_core(3) [OF irqs len small le] by (simp only: i0)
  then show "sample_buffer_full (run N (Start # steps) s) =
          (if N < 8 * length steps then 1 else 0)"
    by (simp add: run_Start beginFillingADCBuffer_eq)
  have "T3CON_ON (run N steps ?b) =
          (if N < 0 + 8 * length steps then False else T3CON_ON ?b)"
    using run_irqs_core(4) [OF irqs len small le] by (simp only: i0)
  then show "T3CON_ON (run N (Start # steps) s) = (\<not> N < 8 * length steps)"
    by (simp add: run_Start beginFillingADCBuffer_eq)
  have "stores_of (trace (run N steps ?b)) =
          stores_of (trace ?b) @ zip [0 ..< N] (map stored ?vs)"
    using run_irqs_core(5) [OF irqs len small le] by (simp only: i0)
  also have "stores_of (trace ?b) = stores_of (trace s)"
    by (simp add: beginFillingADCBuffer_eq stores_of_append)
  also have "zip [0 ..< N] (map stored ?vs) = zip [0 ..< N] (map stored (take N ?vs))"
    using zip_take_right [of "[0 ..< N]" "map stored ?vs"] by (simp add: take_map)
  finally show "stores_of (trace (run N (Start # steps) s)) =
          stores_of (trace s) @ zip [0 ..< N] (map stored (take N ?vs))"
    by (simp only: run_Start)
qed

theorem full_set_by_first_insert_after_index_reaches_size_witness:
  "sample_buffer_full (startup 1 quiet_hw) = 0
   \<and> unat (sample_buffer_current_index (startup 1 quiet_hw)) < 1
   \<and> unat (sample_buffer_current_index (startup 1 quiet_hw)) + 1 = 1
   \<and> (1 :: nat) < 2 ^ 32
   \<and> length (adc_sample_buffer (startup 1 quiet_hw)) = 1
   \<and> list_all is_Irq [Irq True synthetic_regs]
   \<and> sample_buffer_full (insertSample 1 5 (startup 1 quiet_hw)) = 0
   \<and> stores_of (trace (insertSample 1 5 (startup 1 quiet_hw))) = [(0, 5)]
   \<and> 1 \<le> unat (sample_buffer_current_index (insertSample 1 5 (startup 1 quiet_hw)))
   \<and> sample_buffer_full (insertSample 1 6 (insertSample 1 5 (startup 1 quiet_hw))) \<noteq> 0
   \<and> stores_of (trace (insertSample 1 6 (insertSample 1 5 (startup 1 quiet_hw))))
       = [(0, 5)]
   \<and> \<not> T3CON_ON (insertSample 1 6 (insertSample 1 5 (startup 1 quiet_hw)))
   \<and> sample_buffer_full (run 1 [Irq True synthetic_regs]
        (insertSample 1 6 (insertSample 1 5 (startup 1 quiet_hw)))) \<noteq> 0
   \<and> sample_buffer_full (run 1 [Start, Irq True synthetic_regs] (startup 1 quiet_hw)) = 1
   \<and> \<not> T3CON_ON (run 1 [Start, Irq True synthetic_regs] (startup 1 quiet_hw))
   \<and> stores_of (trace (run 1 [Start, Irq True synthetic_regs] (startup 1 quiet_hw)))
       = [(0, 0)]"
  using full_set_by_first_insert_after_index_reaches_size
      [of "startup 1 quiet_hw" 1 5 "[Irq True synthetic_regs]"]
    full_set_by_first_insert_after_index_reaches_size
      [of "insertSample 1 5 (startup 1 quiet_hw)" 1 6 "[Irq True synthetic_regs]"]
    full_set_by_first_insert_after_index_reaches_size
      [of "insertSample 1 6 (insertSample 1 5 (startup 1 quiet_hw))" 1 6
          "[Irq True synthetic_regs]"]
  by (simp add: concrete_defs stored_def completed_bank_def synthetic_regs_def)

section \<open>Scenarios\<close>

lemma delivered_synthetic:
  "map stored (delivered (Irq bufs synthetic_regs)) = [0, 1, 2, 3, 4, 5, 6, 7]"
  by (cases bufs) (simp_all add: completed_bank_def synthetic_regs_def stored_def)

lemma stored_concat_synthetic:
  "map stored (concat (map delivered (map (\<lambda>b. Irq b synthetic_regs) bs))) =
     concat (replicate (length bs) [0, 1, 2, 3, 4, 5, 6, 7])"
proof (induction bs)
  case Nil
  show ?case by simp
next
  case (Cons b bs)
  have "map stored (concat (map delivered (map (\<lambda>b. Irq b synthetic_regs) (b # bs)))) =
        map stored (delivered (Irq b synthetic_regs)) @
        map stored (concat (map delivered (map (\<lambda>b. Irq b synthetic_regs) bs)))"
    by simp
  then show ?case
    by (simp only: delivered_synthetic Cons.IH) simp
qed

lemma length_concat_replicate8:
  "length (concat (replicate m [0, 1, 2, 3, 4, 5, 6, 7 :: 16 word])) = 8 * m"
  by (induction m) simp_all

lemma all_Irq_synthetic: "list_all is_Irq (map (\<lambda>b. Irq b synthetic_regs) bs)"
  by (induction bs) simp_all

text \<open>
  C4, as stated: with \<open>N = 8\<close>, after \<open>initADC\<close>, a start and \<open>N / 8 = 1\<close> interrupt that
  hands over 0 .. 7, the full flag is still 0 and the timer is still on.
\<close>

theorem nominal_fill_not_yet_full:
  "sample_buffer_full (run 8 [Start, Irq True synthetic_regs] (startup 8 quiet_hw)) = 0
   \<and> T3CON_ON (run 8 [Start, Irq True synthetic_regs] (startup 8 quiet_hw))"
  by (simp add: concrete_defs handler_defs synthetic_regs_def)

text \<open>
  C4, amended. Let \<open>N = 8 * m\<close>. After \<open>initADC\<close>, a start and \<open>m\<close> interrupts, each
  handing over the values 0 .. 7 in order, the sample buffer is 0 .. 7 repeated \<open>m\<close>
  times, the stores made since \<open>initADC\<close> are these \<open>N\<close> values at positions 0 .. \<open>N - 1\<close>
  in order, and the write index is \<open>N\<close>; but the full flag is still 0 and the timer is
  still on. One more interrupt stores nothing, leaves the buffer and the write index as
  they are, sets the full flag and turns the timer off.
\<close>

theorem nominal_fill_needs_one_more_interrupt:
  "length (adc_sample_buffer s) = 8 * m \<and> 8 * m < 2 ^ 32 \<and> length bs = m \<longrightarrow>
     adc_sample_buffer
       (run (8 * m) (Start # map (\<lambda>b. Irq b synthetic_regs) bs) (initADC s))
       = concat (replicate m [0, 1, 2, 3, 4, 5, 6, 7])
   \<and> stores_of (trace
       (run (8 * m) (Start # map (\<lambda>b. Irq b synthetic_regs) bs) (initADC s)))
       = stores_of (trace s) @
         zip [0 ..< 8 * m] (concat (replicate m [0, 1, 2, 3, 4, 5, 6, 7]))
   \<and> unat (sample_buffer_current_index
       (run (8 * m) (Start # map (\<lambda>b. Irq b synthetic_regs) bs) (initADC s))) = 8 * m
   \<and> sample_buffer_full
       (run (8 * m) (Start # map (\<lambda>b. Irq b synthetic_regs) bs) (initADC s)) = 0
   \<and> T3CON_ON
       (run (8 * m) (Start # map (\<lambda>b. Irq b synthetic_regs) bs) (initADC s))
   \<and> adc_sample_buffer
       (run (8 * m) (Start # map (\<lambda>b. Irq b synthetic_regs) (bs @ [b])) (initADC s))
       = concat (replicate m [0, 1, 2, 3, 4, 5, 6, 7])
   \<and> stores_of (trace
       (run (8 * m) (Start # map (\<lambda>b. Irq b synthetic_regs) (bs @ [b])) (initADC s)))
       = stores_of (trace
       (run (8 * m) (Start # map (\<lambda>b. Irq b synthetic_regs) bs) (initADC s)))
   \<and> unat (sample_buffer_current_index
       (run (8 * m) (Start # map (\<lambda>b. Irq b synthetic_regs) (bs @ [b])) (initADC s)))
       = 8 * m
   \<and> sample_buffer_full
       (run (8 * m) (Start # map (\<lambda>b. Irq b synthetic_regs) (bs @ [b])) (initADC s)) = 1
   \<and> \<not> T3CON_ON
       (run (8 * m) (Start # map (\<lambda>b. Irq b synthetic_regs) (bs @ [b])) (initADC s))"
proof
  assume h: "length (adc_sample_buffer s) = 8 * m \<and> 8 * m < 2 ^ 32 \<and> length bs = m"
  let ?N = "8 * m"
  let ?p = "[0, 1, 2, 3, 4, 5, 6, 7 :: 16 word]"
  let ?b = "beginFillingADCBuffer (initADC s)"
  have b_buf: "adc_sample_buffer ?b = adc_sample_buffer s"
    by (simp add: beginFillingADCBuffer_eq initADC_def Let_def)
  have b_idx: "unat (sample_buffer_current_index ?b) = 0"
    by (simp add: beginFillingADCBuffer_eq)
  have b_full: "sample_buffer_full ?b = 0" "T3CON_ON ?b"
    by (simp_all add: beginFillingADCBuffer_eq)
  have b_tr: "stores_of (trace ?b) = stores_of (trace s)"
    by (simp add: beginFillingADCBuffer_eq initADC_def Let_def stores_of_append)
  have len: "length (adc_sample_buffer ?b) = ?N"
    using h by (simp only: b_buf)
  have small: "?N < 2 ^ 32" using h by simp
  have le: "unat (sample_buffer_current_index ?b) \<le> ?N"
    by (simp add: b_idx)
  have core: "adc_sample_buffer (run ?N (map (\<lambda>b. Irq b synthetic_regs) cs) ?b) =
        take ?N (concat (replicate (length cs) ?p)) @
        drop (8 * length cs) (adc_sample_buffer s)"
     "unat (sample_buffer_current_index (run ?N (map (\<lambda>b. Irq b synthetic_regs) cs) ?b)) =
        min ?N (8 * length cs)"
     "sample_buffer_full (run ?N (map (\<lambda>b. Irq b synthetic_regs) cs) ?b) =
        (if ?N < 8 * length cs then 1 else 0)"
     "T3CON_ON (run ?N (map (\<lambda>b. Irq b synthetic_regs) cs) ?b) =
        (if ?N < 8 * length cs then False else True)"
     "stores_of (trace (run ?N (map (\<lambda>b. Irq b synthetic_regs) cs) ?b)) =
        stores_of (trace s) @ zip [0 ..< ?N] (concat (replicate (length cs) ?p))" for cs
    using run_irqs_core [OF all_Irq_synthetic len small le, of cs]
    by (simp_all add: b_idx b_buf b_full b_tr stored_concat_synthetic del: map_map)
  have "zip [0 ..< ?N] (concat (replicate (Suc m) ?p)) =
        zip [0 ..< ?N] (take ?N (concat (replicate (Suc m) ?p)))"
    using zip_take_right [of "[0 ..< ?N]" "concat (replicate (Suc m) ?p)"] by simp
  also have "take ?N (concat (replicate (Suc m) ?p)) = concat (replicate m ?p)"
    by (simp add: length_concat_replicate8 replicate_append_same [symmetric])
  finally have same_stores: "zip [0 ..< ?N] (concat (replicate (Suc m) ?p)) =
        zip [0 ..< ?N] (concat (replicate m ?p))" .
  have st_m: "stores_of (trace (run ?N (map (\<lambda>b. Irq b synthetic_regs) bs) ?b)) =
        stores_of (trace s) @ zip [0 ..< ?N] (concat (replicate m ?p))"
    using core(5) [of bs] h by simp
  have "stores_of (trace (run ?N (map (\<lambda>b. Irq b synthetic_regs) (bs @ [b])) ?b)) =
        stores_of (trace s) @ zip [0 ..< ?N] (concat (replicate (Suc m) ?p))"
    using core(5) [of "bs @ [b]"] h by simp
  then have st_m1: "stores_of (trace (run ?N (map (\<lambda>b. Irq b synthetic_regs) (bs @ [b])) ?b)) =
        stores_of (trace (run ?N (map (\<lambda>b. Irq b synthetic_regs) bs) ?b))"
    by (simp only: same_stores st_m)
  show "adc_sample_buffer
       (run (8 * m) (Start # map (\<lambda>b. Irq b synthetic_regs) bs) (initADC s))
       = concat (replicate m [0, 1, 2, 3, 4, 5, 6, 7])
   \<and> stores_of (trace
       (run (8 * m) (Start # map (\<lambda>b. Irq b synthetic_regs) bs) (initADC s)))
       = stores_of (trace s) @
         zip [0 ..< 8 * m] (concat (replicate m [0, 1, 2, 3, 4, 5, 6, 7]))
   \<and> unat (sample_buffer_current_index
       (run (8 * m) (Start # map (\<lambda>b. Irq b synthetic_regs) bs) (initADC s))) = 8 * m
   \<and> sample_buffer_full
       (run (8 * m) (Start # map (\<lambda>b. Irq b synthetic_regs) bs) (initADC s)) = 0
   \<and> T3CON_ON
       (run (8 * m) (Start # map (\<lambda>b. Irq b synthetic_regs) bs) (initADC s))
   \<and> adc_sample_buffer
       (run (8 * m) (Start # map (\<lambda>b. Irq b synthetic_regs) (bs @ [b])) (initADC s))
       = concat (replicate m [0, 1, 2, 3, 4, 5, 6, 7])
   \<and> stores_of (trace
       (run (8 * m) (Start # map (\<lambda>b. Irq b synthetic_regs) (bs @ [b])) (initADC s)))
       = stores_of (trace
       (run (8 * m) (Start # map (\<lambda>b. Irq b synthetic_regs) bs) (initADC s)))
   \<and> unat (sample_buffer_current_index
       (run (8 * m) (Start # map (\<lambda>b. Irq b synthetic_regs) (bs @ [b])) (initADC s)))
       = 8 * m
   \<and> sample_buffer_full
       (run (8 * m) (Start # map (\<lambda>b. Irq b synthetic_regs) (bs @ [b])) (initADC s)) = 1
   \<and> \<not> T3CON_ON
       (run (8 * m) (Start # map (\<lambda>b. Irq b synthetic_regs) (bs @ [b])) (initADC s))"
    using h core(1-4) [of bs] core(1-4) [of "bs @ [b]"] st_m st_m1
    by (simp add: run_Start length_concat_replicate8 replicate_append_same [symmetric])
qed

theorem nominal_fill_needs_one_more_interrupt_witness:
  "length (adc_sample_buffer (hw_with_buffer 16)) = 8 * 2
   \<and> (8 * 2 :: nat) < 2 ^ 32
   \<and> length [True, False] = 2
   \<and> adc_sample_buffer
       (run (8 * 2) (Start # map (\<lambda>b. Irq b synthetic_regs) [True, False])
          (initADC (hw_with_buffer 16)))
       = [0, 1, 2, 3, 4, 5, 6, 7, 0, 1, 2, 3, 4, 5, 6, 7]
   \<and> stores_of (trace
       (run (8 * 2) (Start # map (\<lambda>b. Irq b synthetic_regs) [True, False])
          (initADC (hw_with_buffer 16))))
       = [(0, 0), (1, 1), (2, 2), (3, 3), (4, 4), (5, 5), (6, 6), (7, 7),
          (8, 0), (9, 1), (10, 2), (11, 3), (12, 4), (13, 5), (14, 6), (15, 7)]
   \<and> sample_buffer_full
       (run (8 * 2) (Start # map (\<lambda>b. Irq b synthetic_regs) [True, False])
          (initADC (hw_with_buffer 16))) = 0
   \<and> stores_of (trace
       (run (8 * 2) (Start # map (\<lambda>b. Irq b synthetic_regs) ([True, False] @ [True]))
          (initADC (hw_with_buffer 16))))
       = [(0, 0), (1, 1), (2, 2), (3, 3), (4, 4), (5, 5), (6, 6), (7, 7),
          (8, 0), (9, 1), (10, 2), (11, 3), (12, 4), (13, 5), (14, 6), (15, 7)]
   \<and> sample_buffer_full
       (run (8 * 2) (Start # map (\<lambda>b. Irq b synthetic_regs) ([True, False] @ [True]))
          (initADC (hw_with_buffer 16))) = 1"
  using nominal_fill_needs_one_more_interrupt [of "hw_with_buffer 16" 2 "[True, False]" True]
  by (simp add: hw_with_buffer_def quiet_hw_def replicate_numeral upt_rec)

lemma upt_0_10: "[0 ..< 10] = [0, 1, 2, 3, 4, 5, 6, 7, 8, 9 :: nat]"
  by (simp add: upt_rec)

lemma map_unat_stored_id:
  "list_all (\<lambda>v. v \<le> 1023) vs \<Longrightarrow> map unat (map stored vs) = map unat vs"
  by (induction vs) (simp_all add: unat_stored_id)

text \<open>
  C5. Let the buffer have \<open>N = 10\<close> entries. After a start and two interrupts, which
  hand over sixteen values (eight each, from the completed bank, whatever \<open>BUFS\<close> and the
  registers are), the buffer holds the first ten values, masked to ten bits, in order;
  exactly ten stores were made, at positions 0 .. 9 in this order; the full flag is set,
  the timer is off and the write index is 10. When the sixteen values are at most 1023,
  the buffer holds the first ten values themselves.
\<close>

theorem overrun_keeps_first_ten_discards_six:
  "length (adc_sample_buffer s) = 10 \<longrightarrow>
     length (delivered (Irq b1 r1) @ delivered (Irq b2 r2)) = 16
   \<and> adc_sample_buffer (run 10 [Start, Irq b1 r1, Irq b2 r2] s) =
       map stored (take 10 (delivered (Irq b1 r1) @ delivered (Irq b2 r2)))
   \<and> stores_of (trace (run 10 [Start, Irq b1 r1, Irq b2 r2] s)) =
       stores_of (trace s) @
       zip [0, 1, 2, 3, 4, 5, 6, 7, 8, 9]
         (map stored (take 10 (delivered (Irq b1 r1) @ delivered (Irq b2 r2))))
   \<and> length (adc_sample_buffer (run 10 [Start, Irq b1 r1, Irq b2 r2] s)) = 10
   \<and> sample_buffer_full (run 10 [Start, Irq b1 r1, Irq b2 r2] s) = 1
   \<and> \<not> T3CON_ON (run 10 [Start, Irq b1 r1, Irq b2 r2] s)
   \<and> unat (sample_buffer_current_index (run 10 [Start, Irq b1 r1, Irq b2 r2] s)) = 10
   \<and> (list_all (\<lambda>v. v \<le> 1023) (delivered (Irq b1 r1) @ delivered (Irq b2 r2)) \<longrightarrow>
        map unat (adc_sample_buffer (run 10 [Start, Irq b1 r1, Irq b2 r2] s)) =
        map unat (take 10 (delivered (Irq b1 r1) @ delivered (Irq b2 r2))))"
proof
  assume h: "length (adc_sample_buffer s) = 10"
  let ?b = "beginFillingADCBuffer s"
  let ?steps = "[Irq b1 r1, Irq b2 r2]"
  let ?vs = "delivered (Irq b1 r1) @ delivered (Irq b2 r2)"
  let ?final = "run 10 [Start, Irq b1 r1, Irq b2 r2] s"
  have fin: "?final = run 10 ?steps ?b"
    by (rule run_Start)
  have vs: "concat (map delivered ?steps) = ?vs"
    by simp
  have n: "length ?vs = 16"
    by (simp add: completed_bank_def)
  have irqs: "list_all is_Irq ?steps"
    by simp
  have len: "length (adc_sample_buffer ?b) = 10"
    using h by (simp add: beginFillingADCBuffer_eq)
  have small: "(10 :: nat) < 2 ^ 32"
    by simp
  have i0: "unat (sample_buffer_current_index ?b) = 0"
    by (simp add: beginFillingADCBuffer_eq)
  have le: "unat (sample_buffer_current_index ?b) \<le> 10"
    by (simp add: i0)
  have tr0: "stores_of (trace ?b) = stores_of (trace s)"
    by (simp add: beginFillingADCBuffer_eq stores_of_append)
  have "adc_sample_buffer ?final =
          take 0 (adc_sample_buffer ?b) @ take (10 - 0) (map stored ?vs) @
          drop (0 + 8 * length ?steps) (adc_sample_buffer ?b)"
    using run_irqs_core(1) [OF irqs len small le] by (simp only: fin vs i0)
  then have buf: "adc_sample_buffer ?final = map stored (take 10 ?vs)"
    using len by (simp add: take_map)
  have "unat (sample_buffer_current_index ?final) = min 10 (0 + 8 * length ?steps)"
    using run_irqs_core(2) [OF irqs len small le] by (simp only: fin i0)
  then have idx: "unat (sample_buffer_current_index ?final) = 10"
    by simp
  have "sample_buffer_full ?final =
          (if 10 < 0 + 8 * length ?steps then 1 else sample_buffer_full ?b)"
    using run_irqs_core(3) [OF irqs len small le] by (simp only: fin i0)
  then have full: "sample_buffer_full ?final = 1"
    by simp
  have "T3CON_ON ?final = (if 10 < 0 + 8 * length ?steps then False else T3CON_ON ?b)"
    using run_irqs_core(4) [OF irqs len small le] by (simp only: fin i0)
  then have off: "\<not> T3CON_ON ?final"
    by simp
  have "stores_of (trace ?final) =
          stores_of (trace ?b) @ zip [0 ..< 10] (map stored ?vs)"
    using run_irqs_core(5) [OF irqs len small le] by (simp only: fin vs i0)
  also have "zip [0 ..< 10] (map stored ?vs) = zip [0 ..< 10] (take 10 (map stored ?vs))"
    using zip_take_right [of "[0 ..< 10]" "map stored ?vs"] by simp
  finally have st: "stores_of (trace ?final) =
       stores_of (trace s) @
       zip [0, 1, 2, 3, 4, 5, 6, 7, 8, 9] (map stored (take 10 ?vs))"
    by (simp only: tr0 upt_0_10 take_map)
  have ident: "map unat (adc_sample_buffer ?final) = map unat (take 10 ?vs)"
    if ok: "list_all (\<lambda>v. v \<le> 1023) ?vs"
  proof -
    have "set (take 10 ?vs) \<subseteq> set ?vs"
      by (rule set_take_subset)
    then have "list_all (\<lambda>v. v \<le> 1023) (take 10 ?vs)"
      using ok unfolding list_all_iff by blast
    then show ?thesis
      by (simp only: buf map_unat_stored_id)
  qed
  show "length ?vs = 16
   \<and> adc_sample_buffer ?final = map stored (take 10 ?vs)
   \<and> stores_of (trace ?final) =
       stores_of (trace s) @
       zip [0, 1, 2, 3, 4, 5, 6, 7, 8, 9] (map stored (take 10 ?vs))
   \<and> length (adc_sample_buffer ?final) = 10
   \<and> sample_buffer_full ?final = 1
   \<and> \<not> T3CON_ON ?final
   \<and> unat (sample_buffer_current_index ?final) = 10
   \<and> (list_all (\<lambda>v. v \<le> 1023) ?vs \<longrightarrow>
        map unat (adc_sample_buffer ?final) = map unat (take 10 ?vs))"
    using n buf st full off idx ident by (simp del: delivered.simps)
qed

theorem overrun_keeps_first_ten_discards_six_witness:
  "length (adc_sample_buffer (hw_with_buffer 10)) = 10
   \<and> list_all (\<lambda>v. v \<le> 1023) (delivered (Irq True later_regs) @ delivered (Irq False later_regs))
   \<and> map unat (adc_sample_buffer
        (run 10 [Start, Irq True later_regs, Irq False later_regs] (hw_with_buffer 10)))
      = [100, 101, 102, 103, 104, 105, 106, 107, 108, 109]
   \<and> stores_of (trace
        (run 10 [Start, Irq True later_regs, Irq False later_regs] (hw_with_buffer 10)))
      = [(0, 100), (1, 101), (2, 102), (3, 103), (4, 104), (5, 105), (6, 106), (7, 107),
         (8, 108), (9, 109)]
   \<and> sample_buffer_full
        (run 10 [Start, Irq True later_regs, Irq False later_regs] (hw_with_buffer 10)) = 1"
  using overrun_keeps_first_ten_discards_six
      [of "hw_with_buffer 10" True later_regs False later_regs]
  by (simp add: hw_with_buffer_def quiet_hw_def completed_bank_def later_regs_def stored_def)

section \<open>Restart\<close>

text \<open>
  C6. Whatever the write index, the full flag and the timer bit were, after
  \<open>beginFillingADCBuffer\<close> the write index is 0, the full flag is 0 and the timer is on.
  The state it returns does not depend on the three values it overwrites, so a restart
  in the middle of a batch leaves the same state as a start from idle, and every run
  that follows is the same. Once the interrupts after the start have handed over at
  least \<open>N\<close> values, the sample buffer holds the first \<open>N\<close> of them (masked) and nothing
  of what it held before the start.
\<close>

theorem beginFillingADCBuffer_restarts_from_empty:
  "sample_buffer_current_index (beginFillingADCBuffer s) = 0
   \<and> sample_buffer_full (beginFillingADCBuffer s) = 0
   \<and> T3CON_ON (beginFillingADCBuffer s)
   \<and> beginFillingADCBuffer
        (s\<lparr>sample_buffer_current_index := i, sample_buffer_full := f, T3CON_ON := t\<rparr>)
       = beginFillingADCBuffer s
   \<and> run N steps (beginFillingADCBuffer
        (s\<lparr>sample_buffer_current_index := i, sample_buffer_full := f, T3CON_ON := t\<rparr>))
       = run N steps (beginFillingADCBuffer s)
   \<and> (length (adc_sample_buffer s) = N \<and> N < 2 ^ 32 \<and> list_all is_Irq irqs
        \<and> N \<le> 8 * length irqs \<longrightarrow>
        adc_sample_buffer (run N (Start # irqs) s) =
          map stored (take N (concat (map delivered irqs)))
        \<and> unat (sample_buffer_current_index (run N (Start # irqs) s)) = N)"
proof -
  let ?b = "beginFillingADCBuffer s"
  have eq: "beginFillingADCBuffer
        (s\<lparr>sample_buffer_current_index := i, sample_buffer_full := f, T3CON_ON := t\<rparr>)
       = beginFillingADCBuffer s"
    by (simp add: beginFillingADCBuffer_eq)
  have batch: "adc_sample_buffer (run N (Start # irqs) s) =
          map stored (take N (concat (map delivered irqs)))
        \<and> unat (sample_buffer_current_index (run N (Start # irqs) s)) = N"
    if h: "length (adc_sample_buffer s) = N" "N < 2 ^ 32" "list_all is_Irq irqs"
      "N \<le> 8 * length irqs"
  proof -
    have len: "length (adc_sample_buffer ?b) = N"
      using h(1) by (simp add: beginFillingADCBuffer_eq)
    have i0: "unat (sample_buffer_current_index ?b) = 0"
      by (simp add: beginFillingADCBuffer_eq)
    have le: "unat (sample_buffer_current_index ?b) \<le> N"
      by (simp add: i0)
    have "adc_sample_buffer (run N irqs ?b) =
            take 0 (adc_sample_buffer ?b) @
            take (N - 0) (map stored (concat (map delivered irqs))) @
            drop (0 + 8 * length irqs) (adc_sample_buffer ?b)"
      using run_irqs_core(1) [OF h(3) len h(2) le] by (simp only: i0)
    then have buf: "adc_sample_buffer (run N irqs ?b) =
            map stored (take N (concat (map delivered irqs)))"
      using len h(4) by (simp add: take_map)
    have "unat (sample_buffer_current_index (run N irqs ?b)) = min N (0 + 8 * length irqs)"
      using run_irqs_core(2) [OF h(3) len h(2) le] by (simp only: i0)
    then have "unat (sample_buffer_current_index (run N irqs ?b)) = N"
      using h(4) by simp
    then show ?thesis using buf by (simp only: run_Start)
  qed
  have first: "sample_buffer_current_index ?b = 0 \<and> sample_buffer_full ?b = 0 \<and> T3CON_ON ?b"
    by (simp add: beginFillingADCBuffer_eq)
  show ?thesis
    using first batch by (simp only: eq) blast
qed

text \<open>
  A restart in the middle of a batch: with \<open>N = 8\<close>, a start, one interrupt (eight
  samples stored), a second start and one more interrupt leave the eight values of the
  second interrupt in the buffer.
\<close>

theorem beginFillingADCBuffer_restarts_from_empty_witness:
  "length (adc_sample_buffer (run 8 [Start, Irq True wide_regs] (startup 8 quiet_hw))) = 8
   \<and> (8 :: nat) < 2 ^ 32
   \<and> list_all is_Irq [Irq False later_regs]
   \<and> 8 \<le> 8 * length [Irq False later_regs]
   \<and> adc_sample_buffer (run 8 [Start, Irq True wide_regs] (startup 8 quiet_hw))
       = [0, 1, 2, 3, 4, 5, 6, 7]
   \<and> adc_sample_buffer (run 8 (Start # [Irq False later_regs])
        (run 8 [Start, Irq True wide_regs] (startup 8 quiet_hw)))
       = [108, 109, 110, 111, 112, 113, 114, 115]"
  using beginFillingADCBuffer_restarts_from_empty
     [where s = "run 8 [Start, Irq True wide_regs] (startup 8 quiet_hw)" and N = 8
        and irqs = "[Irq False later_regs]"]
  by (simp add: concrete_defs handler_defs wide_regs_def later_regs_def stored_def
        completed_bank_def)

end
